theory Spec2Isabelle
  imports Main "HOL-Library.Word"
begin

unbundle bit_operations_syntax

section \<open>The C++ type \<open>float\<close>: IEEE 754 binary32\<close>

text \<open>
  The marching-cubes code computes with the C++ type \<open>float\<close>.  It is modelled as
  IEEE 754 binary32 with the default rounding (to nearest, ties to even), every
  operation rounded on its own.  A finite datum \<open>Finite s m e\<close> has the value
  \<open>(-1)^s * m * 2^e\<close>; the operations produce the canonical form, where
  \<open>2^23 \<le> m < 2^24\<close> and \<open>-149 \<le> e \<le> 104\<close> (normal numbers) or \<open>m < 2^23\<close> and
  \<open>e = -149\<close> (zero and subnormal numbers).
\<close>

datatype float32 = Finite bool nat int | Infinity bool | NaN

fun is_nan :: "float32 \<Rightarrow> bool" where
  "is_nan NaN = True"
| "is_nan _ = False"

fun is_finite :: "float32 \<Rightarrow> bool" where
  "is_finite (Finite s m e) = True"
| "is_finite _ = False"

text \<open>The data that binary32 really has: the canonical finite forms, the infinities, NaN.\<close>

fun is_f32 :: "float32 \<Rightarrow> bool" where
  "is_f32 (Finite s m e) =
     (m < 2 ^ 24 \<and> - 149 \<le> e \<and> e \<le> 104 \<and> (m < 2 ^ 23 \<longrightarrow> e = - 149))"
| "is_f32 _ = True"

text \<open>
  The value of a datum as a multiple of \<open>2^-149\<close>, the smallest positive binary32 number.
  The infinities lie beyond every finite value; NaN has no value and is excluded wherever
  \<open>units\<close> is compared.
\<close>

fun units :: "float32 \<Rightarrow> int" where
  "units (Finite s m e) = (if s then - 1 else 1) * (int m * 2 ^ nat (e + 149))"
| "units (Infinity s) = (if s then - 1 else 1) * 2 ^ 300"
| "units NaN = 0"

fun bitlen :: "nat \<Rightarrow> nat" where
  "bitlen n = (if n = 0 then 0 else Suc (bitlen (n div 2)))"

declare bitlen.simps [simp del]

definition pack :: "bool \<Rightarrow> nat \<Rightarrow> int \<Rightarrow> float32" where
  "pack s m e =
     (let (m', e') = (if m = 2 ^ 24 then (2 ^ 23, e + 1) else (m, e))
      in if e' > 104 then Infinity s else Finite s m' e')"

text \<open>\<open>f32_round s n e\<close> rounds the exact value \<open>(-1)^s * n * 2^e\<close> to binary32.\<close>

definition f32_round :: "bool \<Rightarrow> nat \<Rightarrow> int \<Rightarrow> float32" where
  "f32_round s n e =
     (if n = 0 then Finite s 0 (- 149)
      else
        let te = max (e + int (bitlen n) - 24) (- 149)
        in if te \<le> e then pack s (n * 2 ^ nat (e - te)) te
           else
             let sh = nat (te - e);
                 q = n div 2 ^ sh;
                 r = n mod 2 ^ sh;
                 half = 2 ^ (sh - 1)
             in pack s (if half < r \<or> (r = half \<and> odd q) then q + 1 else q) te)"

fun f32_neg :: "float32 \<Rightarrow> float32" where
  "f32_neg (Finite s m e) = Finite (\<not> s) m e"
| "f32_neg (Infinity s) = Infinity (\<not> s)"
| "f32_neg NaN = NaN"

fun f32_add :: "float32 \<Rightarrow> float32 \<Rightarrow> float32" where
  "f32_add (Finite s m e) (Finite t n k) =
     (let u = units (Finite s m e) + units (Finite t n k)
      in if u = 0 then Finite (s \<and> t) 0 (- 149)
         else f32_round (u < 0) (nat \<bar>u\<bar>) (- 149))"
| "f32_add (Finite s m e) (Infinity t) = Infinity t"
| "f32_add (Infinity s) (Finite t n k) = Infinity s"
| "f32_add (Infinity s) (Infinity t) = (if s = t then Infinity s else NaN)"
| "f32_add NaN b = NaN"
| "f32_add a NaN = NaN"

fun f32_mul :: "float32 \<Rightarrow> float32 \<Rightarrow> float32" where
  "f32_mul (Finite s m e) (Finite t n k) = f32_round (s \<noteq> t) (m * n) (e + k)"
| "f32_mul (Finite s m e) (Infinity t) = (if m = 0 then NaN else Infinity (s \<noteq> t))"
| "f32_mul (Infinity s) (Finite t n k) = (if n = 0 then NaN else Infinity (s \<noteq> t))"
| "f32_mul (Infinity s) (Infinity t) = Infinity (s \<noteq> t)"
| "f32_mul NaN b = NaN"
| "f32_mul a NaN = NaN"

text \<open>
  Division keeps 64 extra quotient bits and a sticky bit for a non-zero remainder, which
  is enough to round the exact quotient correctly.
\<close>

fun f32_div :: "float32 \<Rightarrow> float32 \<Rightarrow> float32" where
  "f32_div (Finite s m e) (Finite t n k) =
     (if n = 0 then (if m = 0 then NaN else Infinity (s \<noteq> t))
      else
        let a = m * 2 ^ 64
        in f32_round (s \<noteq> t) (2 * (a div n) + (if a mod n = 0 then 0 else 1)) (e - k - 65))"
| "f32_div (Finite s m e) (Infinity t) = Finite (s \<noteq> t) 0 (- 149)"
| "f32_div (Infinity s) (Finite t n k) = Infinity (s \<noteq> t)"
| "f32_div (Infinity s) (Infinity t) = NaN"
| "f32_div NaN b = NaN"
| "f32_div a NaN = NaN"

text \<open>The integer square root, one result bit per step, from bit \<open>k - 1\<close> down.\<close>

fun isqrt_bits :: "nat \<Rightarrow> nat \<Rightarrow> nat \<Rightarrow> nat" where
  "isqrt_bits 0 n r = r"
| "isqrt_bits (Suc k) n r =
     (let t = r + 2 ^ k in if t * t \<le> n then isqrt_bits k n t else isqrt_bits k n r)"

definition isqrt :: "nat \<Rightarrow> nat" where
  "isqrt n = isqrt_bits (bitlen n) n 0"

fun f32_sqrt :: "float32 \<Rightarrow> float32" where
  "f32_sqrt (Finite s m e) =
     (if m = 0 then Finite s 0 (- 149)
      else if s then NaN
      else
        let a = m * 2 ^ 64 * (if even e then 1 else 2);
            ea = e - 64 - (if even e then 0 else 1);
            r = isqrt a
        in f32_round False (2 * r + (if r * r = a then 0 else 1)) (ea div 2 - 1))"
| "f32_sqrt (Infinity s) = (if s then NaN else Infinity False)"
| "f32_sqrt NaN = NaN"

text \<open>The comparisons \<open><\<close>, \<open><=\<close> and \<open>==\<close> of C++: false whenever an operand is NaN.\<close>

definition f32_less :: "float32 \<Rightarrow> float32 \<Rightarrow> bool" where
  "f32_less a b = (\<not> is_nan a \<and> \<not> is_nan b \<and> units a < units b)"

definition f32_le :: "float32 \<Rightarrow> float32 \<Rightarrow> bool" where
  "f32_le a b = (\<not> is_nan a \<and> \<not> is_nan b \<and> units a \<le> units b)"

definition f32_eq :: "float32 \<Rightarrow> float32 \<Rightarrow> bool" where
  "f32_eq a b = (\<not> is_nan a \<and> \<not> is_nan b \<and> units a = units b)"

text \<open>The conversion of an integer literal to \<open>float\<close>.\<close>

definition f32_of_int :: "int \<Rightarrow> float32" where
  "f32_of_int i = f32_round (i < 0) (nat \<bar>i\<bar>) 0"

instantiation float32 :: "{zero, one, plus, minus, uminus, times, inverse, ord}"
begin

definition zero_float32 :: float32 where
  "zero_float32 = Finite False 0 (- 149)"

definition one_float32 :: float32 where
  "one_float32 = Finite False 8388608 (- 23)"

definition plus_float32 :: "float32 \<Rightarrow> float32 \<Rightarrow> float32" where
  "plus_float32 a b = f32_add a b"

definition minus_float32 :: "float32 \<Rightarrow> float32 \<Rightarrow> float32" where
  "minus_float32 a b = f32_add a (f32_neg b)"

definition uminus_float32 :: "float32 \<Rightarrow> float32" where
  "uminus_float32 a = f32_neg a"

definition times_float32 :: "float32 \<Rightarrow> float32 \<Rightarrow> float32" where
  "times_float32 a b = f32_mul a b"

definition divide_float32 :: "float32 \<Rightarrow> float32 \<Rightarrow> float32" where
  "divide_float32 a b = f32_div a b"

definition inverse_float32 :: "float32 \<Rightarrow> float32" where
  "inverse_float32 a = f32_div (Finite False 8388608 (- 23)) a"

definition less_float32 :: "float32 \<Rightarrow> float32 \<Rightarrow> bool" where
  "less_float32 a b = f32_less a b"

definition less_eq_float32 :: "float32 \<Rightarrow> float32 \<Rightarrow> bool" where
  "less_eq_float32 a b = f32_le a b"

instance ..

end

section \<open>glm::vec3 and the glm functions the code calls\<close>

datatype vec3 = Vec3 (vx: float32) (vy: float32) (vz: float32)

text \<open>\<open>a + b\<close>, \<open>a - b\<close>, \<open>v * s\<close> and \<open>s * v\<close> of glm: component by component.\<close>

definition vadd :: "vec3 \<Rightarrow> vec3 \<Rightarrow> vec3" where
  "vadd a b = Vec3 (vx a + vx b) (vy a + vy b) (vz a + vz b)"

definition vsub :: "vec3 \<Rightarrow> vec3 \<Rightarrow> vec3" where
  "vsub a b = Vec3 (vx a - vx b) (vy a - vy b) (vz a - vz b)"

definition vmuls :: "vec3 \<Rightarrow> float32 \<Rightarrow> vec3" where
  "vmuls v s = Vec3 (vx v * s) (vy v * s) (vz v * s)"

definition smulv :: "float32 \<Rightarrow> vec3 \<Rightarrow> vec3" where
  "smulv s v = Vec3 (s * vx v) (s * vy v) (s * vz v)"

text \<open>\<open>glm::cross\<close>, \<open>glm::dot\<close>, \<open>glm::inversesqrt\<close> and \<open>glm::normalize\<close> (here \<open>normalize_v\<close>).\<close>

definition cross :: "vec3 \<Rightarrow> vec3 \<Rightarrow> vec3" where
  "cross a b =
     Vec3 (vy a * vz b - vy b * vz a) (vz a * vx b - vz b * vx a) (vx a * vy b - vx b * vy a)"

definition dot :: "vec3 \<Rightarrow> vec3 \<Rightarrow> float32" where
  "dot a b = vx a * vx b + vy a * vy b + vz a * vz b"

definition inversesqrt :: "float32 \<Rightarrow> float32" where
  "inversesqrt a = 1 / f32_sqrt a"

definition normalize_v :: "vec3 \<Rightarrow> vec3" where
  "normalize_v v = vmuls v (inversesqrt (dot v v))"

section \<open>marching.cpp\<close>

subsection \<open>interpolateVertex\<close>

definition interpolateVertex :: "vec3 \<Rightarrow> vec3 \<Rightarrow> float32 \<Rightarrow> float32 \<Rightarrow> float32 \<Rightarrow> vec3" where
  "interpolateVertex p1 p2 valp1 valp2 isovalue =
     (let t = (isovalue - valp1) / (valp2 - valp1)
      in vadd p1 (smulv t (vsub p2 p1)))"

subsection \<open>marching_cubes\<close>

text \<open>
  Reading an array or a \<open>std::vector\<close> outside its bounds is undefined behaviour in C++;
  the model stops there with a fault.
\<close>

datatype fault = OutOfBounds

definition cubeVerts :: "vec3 list" where
  "cubeVerts =
     [Vec3 0 0 0, Vec3 1 0 0, Vec3 1 0 1, Vec3 0 0 1,
      Vec3 0 1 0, Vec3 1 1 0, Vec3 1 1 1, Vec3 0 1 1]"

definition edgeConnections :: "(nat \<times> nat) list" where
  "edgeConnections =
     [(0, 1), (1, 2), (2, 3), (3, 0),
      (4, 5), (5, 6), (6, 7), (7, 4),
      (0, 4), (1, 5), (2, 6), (3, 7)]"

text \<open>The first loop over the corners: \<open>pos[i]\<close> and \<open>val[i]\<close> for \<open>i = 0 .. 7\<close>.\<close>

definition corner_pos :: "vec3 \<Rightarrow> float32 \<Rightarrow> vec3 list" where
  "corner_pos cubePos stepsize = map (\<lambda>i. vadd cubePos (vmuls (cubeVerts ! i) stepsize)) [0..<8]"

definition corner_val :: "(float32 \<Rightarrow> float32 \<Rightarrow> float32 \<Rightarrow> float32) \<Rightarrow> vec3 list \<Rightarrow> float32 list" where
  "corner_val f pos = map (\<lambda>i. f (vx (pos ! i)) (vy (pos ! i)) (vz (pos ! i))) [0..<8]"

text \<open>The second loop: \<open>if (val[i] < isovalue) cubeIndex |= (1 << i)\<close>, from \<open>cubeIndex = 0\<close>.\<close>

definition cube_index :: "float32 list \<Rightarrow> float32 \<Rightarrow> int" where
  "cube_index val isovalue =
     fold (\<lambda>i cubeIndex. if val ! i < isovalue then cubeIndex OR push_bit i 1 else cubeIndex)
       [0..<8] 0"

definition edge_vertices :: "vec3 list \<Rightarrow> float32 list \<Rightarrow> float32 \<Rightarrow> vec3 list" where
  "edge_vertices pos val isovalue =
     map (\<lambda>(v0, v1). interpolateVertex (pos ! v0) (pos ! v1) (val ! v0) (val ! v1) isovalue)
       edgeConnections"

definition push_vec :: "float32 list \<Rightarrow> vec3 \<Rightarrow> float32 list" where
  "push_vec vertices v = vertices @ [vx v, vy v, vz v]"

text \<open>
  The loop over \<open>j\<close> inside "Build triangles": it reads \<open>triEdges[i + j]\<close> and
  \<open>edgeVertex[triEdges[i + j]]\<close>, then pushes the three coordinates.
\<close>

fun triangle_loop :: "int list \<Rightarrow> vec3 list \<Rightarrow> nat \<Rightarrow> nat list \<Rightarrow> float32 list \<Rightarrow> fault + float32 list" where
  "triangle_loop triEdges edgeVertex i [] vertices = Inr vertices"
| "triangle_loop triEdges edgeVertex i (j # js) vertices =
     (if length triEdges \<le> i + j then Inl OutOfBounds
      else if triEdges ! (i + j) < 0 \<or> int (length edgeVertex) \<le> triEdges ! (i + j)
        then Inl OutOfBounds
      else triangle_loop triEdges edgeVertex i js
             (push_vec vertices (edgeVertex ! nat (triEdges ! (i + j)))))"

text \<open>\<open>for (int i = 0; triEdges[i] != -1; i += 3)\<close>\<close>

function build_triangles :: "int list \<Rightarrow> vec3 list \<Rightarrow> nat \<Rightarrow> float32 list \<Rightarrow> fault + float32 list" where
  "build_triangles triEdges edgeVertex i vertices =
     (if length triEdges \<le> i then Inl OutOfBounds
      else if triEdges ! i = - 1 then Inr vertices
      else
        (case triangle_loop triEdges edgeVertex i [0, 1, 2] vertices of
           Inl e \<Rightarrow> Inl e
         | Inr vertices' \<Rightarrow> build_triangles triEdges edgeVertex (i + 3) vertices'))"
  by pat_completeness auto

termination
  by (relation "measure (\<lambda>(triEdges, edgeVertex, i, vertices). length triEdges - i)") auto

declare build_triangles.simps [simp del]

text \<open>
  The body of the innermost loop, for the cell at \<open>(x, y, z)\<close>.  The table
  \<open>marching_cubes_lut\<close> comes from \<open>TriTable.hpp\<close>, which is not among the sources at
  hand; it is the parameter \<open>lut\<close>.
\<close>

definition process_cube ::
  "int list list \<Rightarrow> (float32 \<Rightarrow> float32 \<Rightarrow> float32 \<Rightarrow> float32) \<Rightarrow> float32 \<Rightarrow> float32 \<Rightarrow>
   float32 \<Rightarrow> float32 \<Rightarrow> float32 \<Rightarrow> float32 list \<Rightarrow> fault + float32 list" where
  "process_cube lut f isovalue stepsize x y z vertices =
     (let cubePos = Vec3 x y z;
          pos = corner_pos cubePos stepsize;
          val = corner_val f pos;
          cubeIndex = cube_index val isovalue
      in if int (length lut) \<le> cubeIndex then Inl OutOfBounds
         else
           let triEdges = lut ! nat cubeIndex
           in if triEdges = [] then Inl OutOfBounds
              else if triEdges ! 0 = - 1 then Inr vertices
              else build_triangles triEdges (edge_vertices pos val isovalue) 0 vertices)"

text \<open>
  \<open>for (float v = ...; v < max; v += stepsize) body\<close>.  Nothing bounds the number of
  iterations, so the loop takes fuel: \<open>None\<close> says that \<open>n\<close> iterations were not enough.
\<close>

fun for_loop ::
  "nat \<Rightarrow> float32 \<Rightarrow> float32 \<Rightarrow> (float32 \<Rightarrow> 's \<Rightarrow> (fault + 's) option) \<Rightarrow> float32 \<Rightarrow> 's \<Rightarrow>
   (fault + 's) option" where
  "for_loop 0 maxb stepsize body v s = None"
| "for_loop (Suc n) maxb stepsize body v s =
     (if v < maxb then
        (case body v s of
           None \<Rightarrow> None
         | Some (Inl e) \<Rightarrow> Some (Inl e)
         | Some (Inr s') \<Rightarrow> for_loop n maxb stepsize body (v + stepsize) s')
      else Some (Inr s))"

definition marching_cubes ::
  "nat \<Rightarrow> int list list \<Rightarrow> (float32 \<Rightarrow> float32 \<Rightarrow> float32 \<Rightarrow> float32) \<Rightarrow> float32 \<Rightarrow> float32 \<Rightarrow>
   float32 \<Rightarrow> float32 \<Rightarrow> (fault + float32 list) option" where
  "marching_cubes fuel lut f isovalue minb maxb stepsize =
     for_loop fuel maxb stepsize
       (\<lambda>x. for_loop fuel maxb stepsize
          (\<lambda>y. for_loop fuel maxb stepsize
             (\<lambda>z vertices. Some (process_cube lut f isovalue stepsize x y z vertices))
             minb)
          minb)
       minb []"

subsection \<open>compute_normals\<close>

text \<open>\<open>for (size_t i = 0; i < vertices.size(); i += 9)\<close>, reading \<open>vertices[i] .. vertices[i+8]\<close>.\<close>

function normals_loop :: "float32 list \<Rightarrow> nat \<Rightarrow> float32 list \<Rightarrow> fault + float32 list" where
  "normals_loop vertices i normals =
     (if \<not> i < length vertices then Inr normals
      else if length vertices \<le> i + 8 then Inl OutOfBounds
      else
        let v0 = Vec3 (vertices ! i) (vertices ! (i + 1)) (vertices ! (i + 2));
            v1 = Vec3 (vertices ! (i + 3)) (vertices ! (i + 4)) (vertices ! (i + 5));
            v2 = Vec3 (vertices ! (i + 6)) (vertices ! (i + 7)) (vertices ! (i + 8));
            normal = normalize_v (cross (vsub v1 v0) (vsub v2 v0))
        in normals_loop vertices (i + 9) (fold (\<lambda>j ns. push_vec ns normal) [0..<3] normals))"
  by pat_completeness auto

termination
  by (relation "measure (\<lambda>(vertices, i, normals). length vertices - i)") auto

declare normals_loop.simps [simp del]

definition compute_normals :: "float32 list \<Rightarrow> fault + float32 list" where
  "compute_normals vertices = normals_loop vertices 0 []"

subsection \<open>write_ply\<close>

text \<open>\<open>operator<<\<close> on a \<open>size_t\<close>: the decimal digits, most significant first.\<close>

definition digit_char :: "nat \<Rightarrow> char" where
  "digit_char d = ''0123456789'' ! d"

function dec :: "nat \<Rightarrow> string" where
  "dec n = (if n < 10 then [digit_char n] else dec (n div 10) @ [digit_char (n mod 10)])"
  by pat_completeness auto

termination
  by (relation "measure (\<lambda>n. n)") auto

declare dec.simps [simp del]

definition newline :: string where
  "newline = [CHR 0x0A]"

definition ply_header :: "nat \<Rightarrow> string" where
  "ply_header numVertices =
     ''ply'' @ newline @
     ''format ascii 1.0'' @ newline @
     ''element vertex '' @ dec numVertices @ newline @
     ''property float x'' @ newline @
     ''property float y'' @ newline @
     ''property float z'' @ newline @
     ''property float nx'' @ newline @
     ''property float ny'' @ newline @
     ''property float nz'' @ newline @
     ''end_header'' @ newline"

text \<open>
  The loop over the vertices.  \<open>shw\<close> is \<open>operator<<\<close> on a \<open>float\<close>, which the standard
  library defines.  The result is the text sent to the file so far, and the fault if a
  read was out of bounds.
\<close>

function write_rows ::
  "(float32 \<Rightarrow> string) \<Rightarrow> float32 list \<Rightarrow> float32 list \<Rightarrow> nat \<Rightarrow> nat \<Rightarrow> string \<Rightarrow>
   string \<times> fault option" where
  "write_rows shw vertices normals numVertices i buf =
     (if \<not> i < numVertices then (buf, None)
      else if length vertices \<le> i * 3 + 2 then (buf, Some OutOfBounds)
      else
        let buf1 = buf @ shw (vertices ! (i * 3)) @ '' '' @ shw (vertices ! (i * 3 + 1)) @ '' ''
                      @ shw (vertices ! (i * 3 + 2)) @ '' ''
        in if length normals \<le> i * 3 + 2 then (buf1, Some OutOfBounds)
           else write_rows shw vertices normals numVertices (i + 1)
                  (buf1 @ shw (normals ! (i * 3)) @ '' '' @ shw (normals ! (i * 3 + 1)) @ '' ''
                     @ shw (normals ! (i * 3 + 2)) @ newline))"
  by pat_completeness auto

termination
  by (relation "measure (\<lambda>(shw, vertices, normals, numVertices, i, buf). numVertices - i)") auto

declare write_rows.simps [simp del]

text \<open>
  What a call of \<open>write_ply\<close> leaves behind: the text sent to the file (\<open>None\<close> when the
  file was not opened), the text sent to \<open>std::cerr\<close> and to \<open>std::cout\<close>, and the fault
  if a read was out of bounds.
\<close>

record ply_result =
  file_text :: "string option"
  cerr_text :: string
  cout_text :: string
  ub :: "fault option"

text \<open>\<open>can_open\<close> tells which paths \<open>std::ofstream\<close> can open for writing.\<close>

definition write_ply ::
  "(string \<Rightarrow> bool) \<Rightarrow> (float32 \<Rightarrow> string) \<Rightarrow> float32 list \<Rightarrow> float32 list \<Rightarrow> string \<Rightarrow> ply_result" where
  "write_ply can_open shw vertices normals filename =
     (if \<not> can_open filename then
        \<lparr>file_text = None, cerr_text = ''Failed to open file: '' @ filename @ newline,
         cout_text = [], ub = None\<rparr>
      else
        let numVertices = length vertices div 3;
            rows = write_rows shw vertices normals numVertices 0 (ply_header numVertices)
        in case snd rows of
             Some e \<Rightarrow> \<lparr>file_text = Some (fst rows), cerr_text = [], cout_text = [], ub = Some e\<rparr>
           | None \<Rightarrow>
               \<lparr>file_text = Some (fst rows), cerr_text = [],
                cout_text = ''Wrote '' @ filename @ '' with '' @ dec numVertices @ '' vertices.'' @ newline,
                ub = None\<rparr>)"

subsection \<open>Reading the vertex count back from a PLY header\<close>

text \<open>
  The repository has no PLY reader.  This one follows the format: the header is a sequence
  of lines up to \<open>end_header\<close>, and the line \<open>element vertex N\<close> declares the count.
\<close>

fun lines_of :: "string \<Rightarrow> string list" where
  "lines_of [] = [] # []"
| "lines_of (c # cs) =
     (if c = CHR 0x0A then [] # lines_of cs
      else (case lines_of cs of [] \<Rightarrow> [c] # [] | l # ls \<Rightarrow> (c # l) # ls))"

definition digit_val :: "char \<Rightarrow> nat option" where
  "digit_val c =
     (let code = (of_char c :: nat)
      in if 48 \<le> code \<and> code < 58 then Some (code - 48) else None)"

fun parse_digits :: "string \<Rightarrow> nat \<Rightarrow> nat option" where
  "parse_digits [] acc = Some acc"
| "parse_digits (c # cs) acc =
     (case digit_val c of None \<Rightarrow> None | Some d \<Rightarrow> parse_digits cs (acc * 10 + d))"

definition parse_dec :: "string \<Rightarrow> nat option" where
  "parse_dec s = (if s = [] then None else parse_digits s 0)"

definition ply_vertex_count :: "string \<Rightarrow> nat option" where
  "ply_vertex_count header =
     (case find (\<lambda>l. take 15 l = ''element vertex '')
             (takeWhile (\<lambda>l. l \<noteq> ''end_header'') (lines_of header)) of
        None \<Rightarrow> None
      | Some l \<Rightarrow> parse_dec (drop 15 l))"

section \<open>Definitions used to state the properties\<close>

text \<open>The three coordinates of a vector, in the order in which they are pushed.\<close>

definition coords :: "vec3 \<Rightarrow> float32 list" where
  "coords v = [vx v, vy v, vz v]"

text \<open>
  The normal of triangle \<open>k\<close> of a flat vertex sequence:
  \<open>normalize(cross(v1 - v0, v2 - v0))\<close> for its three vertices.
\<close>

definition triangle_normal :: "float32 list \<Rightarrow> nat \<Rightarrow> vec3" where
  "triangle_normal vertices k =
     (let v0 = Vec3 (vertices ! (9 * k)) (vertices ! (9 * k + 1)) (vertices ! (9 * k + 2));
          v1 = Vec3 (vertices ! (9 * k + 3)) (vertices ! (9 * k + 4)) (vertices ! (9 * k + 5));
          v2 = Vec3 (vertices ! (9 * k + 6)) (vertices ! (9 * k + 7)) (vertices ! (9 * k + 8))
      in normalize_v (cross (vsub v1 v0) (vsub v2 v0)))"

text \<open>Every triangle's normal, three times over, triangle after triangle.\<close>

definition flat_normals :: "float32 list \<Rightarrow> float32 list" where
  "flat_normals vertices =
     concat (map (\<lambda>k. concat (replicate 3 (coords (triangle_normal vertices k))))
       [0..<length vertices div 9])"

text \<open>
  A configuration table for the examples: row 153 (the corners 0, 3, 4 and 7 below the
  isovalue) holds two triangles on the edges 0, 2, 4 and 6; every other row is empty.
\<close>

definition lut_example :: "int list list" where
  "lut_example =
     (replicate 256 (replicate 16 (- 1)))
       [153 := [0, 4, 6, 0, 6, 2, - 1, - 1, - 1, - 1, - 1, - 1, - 1, - 1, - 1, - 1]]"

definition half :: float32 where
  "half = Finite False 8388608 (- 24)"

text \<open>
  A property of all three components of a vector, and a relation between the components
  of two vectors; \<open>vec_all2 f32_eq\<close> is the \<open>==\<close> of glm on \<open>vec3\<close>.
\<close>

definition vec_all :: "(float32 \<Rightarrow> bool) \<Rightarrow> vec3 \<Rightarrow> bool" where
  "vec_all P v = (P (vx v) \<and> P (vy v) \<and> P (vz v))"

definition vec_all2 :: "(float32 \<Rightarrow> float32 \<Rightarrow> bool) \<Rightarrow> vec3 \<Rightarrow> vec3 \<Rightarrow> bool" where
  "vec_all2 R a b = (R (vx a) (vx b) \<and> R (vy a) (vy b) \<and> R (vz a) (vz b))"

text \<open>The float difference \<open>a - b\<close> is finite and was not rounded.\<close>

definition exact_sub :: "float32 \<Rightarrow> float32 \<Rightarrow> bool" where
  "exact_sub a b = (is_finite (a - b) \<and> units (a - b) = units a - units b)"

section \<open>Facts about binary32\<close>

lemmas f32_arith =
  plus_float32_def minus_float32_def times_float32_def divide_float32_def
  less_float32_def less_eq_float32_def zero_float32_def one_float32_def
  f32_less_def f32_le_def f32_eq_def f32_round_def pack_def bitlen.simps Let_def

subsection \<open>The length of a mantissa in bits\<close>

lemma bitlen_bounds: "0 < n \<Longrightarrow> 2 ^ (bitlen n - 1) \<le> n \<and> n < 2 ^ bitlen n"
proof (induction n rule: bitlen.induct)
  case (1 n)
  show ?case
  proof (cases "n div 2 = 0")
    case True
    with "1.prems" have "n = 1" by presburger
    moreover have "bitlen (Suc 0) = Suc 0"
      by (simp add: bitlen.simps [of "Suc 0"] bitlen.simps [of 0])
    ultimately show ?thesis
      by simp
  next
    case False
    with "1.IH" "1.prems" have ih: "2 ^ (bitlen (n div 2) - 1) \<le> n div 2" "n div 2 < 2 ^ bitlen (n div 2)"
      by simp_all
    from False have pos: "0 < bitlen (n div 2)"
      by (simp add: bitlen.simps [of "n div 2"])
    have bl: "bitlen n = Suc (bitlen (n div 2))"
      using "1.prems" by (simp add: bitlen.simps [of n])
    from pos have "(2::nat) ^ bitlen (n div 2) = 2 * 2 ^ (bitlen (n div 2) - 1)"
      by (cases "bitlen (n div 2)") simp_all
    with ih(1) have "2 ^ bitlen (n div 2) \<le> n" by simp
    moreover from ih(2) have "n < 2 * 2 ^ bitlen (n div 2)" by simp
    ultimately show ?thesis by (simp add: bl)
  qed
qed

lemma bitlen_eqI: "2 ^ k \<le> n \<Longrightarrow> n < 2 ^ Suc k \<Longrightarrow> bitlen n = Suc k"
proof -
  assume lo: "2 ^ k \<le> n" and hi: "n < 2 ^ Suc k"
  then have pos: "0 < n" by (metis less_le_trans zero_less_numeral zero_less_power)
  from bitlen_bounds [OF pos] have b: "2 ^ (bitlen n - 1) \<le> n" "n < 2 ^ bitlen n" by simp_all
  from lo b(2) have "(2::nat) ^ k < 2 ^ bitlen n" by (rule le_less_trans)
  then have 1: "k < bitlen n" by (rule power_less_imp_less_exp [rotated]) simp
  from b(1) hi have "(2::nat) ^ (bitlen n - 1) < 2 ^ Suc k" by (rule le_less_trans)
  then have 2: "bitlen n - 1 < Suc k" by (rule power_less_imp_less_exp [rotated]) simp
  from 1 2 show ?thesis by simp
qed

lemma bitlen_pos: "0 < n \<Longrightarrow> 0 < bitlen n"
  by (simp add: bitlen.simps [of n])

lemma bitlen_shift: "0 < m \<Longrightarrow> bitlen (m * 2 ^ k) = bitlen m + k"
proof -
  assume pos: "0 < m"
  from bitlen_bounds [OF pos] have b: "2 ^ (bitlen m - 1) \<le> m" "m < 2 ^ bitlen m" by simp_all
  from bitlen_pos [OF pos] obtain j where j: "bitlen m = Suc j" by (cases "bitlen m") auto
  from b j have "2 ^ j * 2 ^ k \<le> m * 2 ^ k" "m * 2 ^ k < 2 ^ Suc j * 2 ^ k"
    by simp_all
  then have "2 ^ (j + k) \<le> m * 2 ^ k" "m * 2 ^ k < 2 ^ Suc (j + k)"
    by (simp_all add: power_add)
  from bitlen_eqI [OF this] j show ?thesis by simp
qed

lemma bitlen_normal: "2 ^ 23 \<le> m \<Longrightarrow> m < 2 ^ 24 \<Longrightarrow> bitlen m = 24"
  using bitlen_eqI [of 23 m] by simp

lemma bitlen_subnormal: "m < 2 ^ 23 \<Longrightarrow> bitlen m \<le> 23"
proof (cases "m = 0")
  case True
  then show ?thesis by (simp add: bitlen.simps [of 0])
next
  case False
  assume "m < 2 ^ 23"
  with bitlen_bounds [of m] False have "(2::nat) ^ (bitlen m - 1) < 2 ^ 23"
    by simp
  then have "bitlen m - 1 < 23"
    by (rule power_less_imp_less_exp [rotated]) simp
  then show ?thesis by simp
qed

lemma bitlen_le: "n < 2 ^ k \<Longrightarrow> bitlen n \<le> k"
proof (cases "n = 0")
  case True
  then show ?thesis by (simp add: bitlen.simps [of 0])
next
  case False
  assume k: "n < 2 ^ k"
  from bitlen_bounds [of n] False have "2 ^ (bitlen n - 1) \<le> n"
    by simp
  from this k have "(2::nat) ^ (bitlen n - 1) < 2 ^ k"
    by (rule le_less_trans)
  then have "bitlen n - 1 < k"
    by (rule power_less_imp_less_exp [rotated]) simp
  then show ?thesis by simp
qed

subsection \<open>Rounding\<close>

lemma pack_plain: "m < 2 ^ 24 \<Longrightarrow> e \<le> 104 \<Longrightarrow> pack s m e = Finite s m e"
  by (simp add: pack_def)

text \<open>Rounding a value that binary32 has returns that value.\<close>

lemma f32_round_exact:
  assumes "is_f32 (Finite s m e)"
  shows "f32_round s (m * 2 ^ k) (e - int k) = Finite s m e"
proof (cases "m = 0")
  case True
  with assms show ?thesis by (simp add: f32_round_def)
next
  case False
  then have pos: "0 < m" by simp
  from assms have m: "m < 2 ^ 24" and e: "- 149 \<le> e" "e \<le> 104"
    and sub: "m < 2 ^ 23 \<Longrightarrow> e = - 149"
    by simp_all
  have bl: "bitlen (m * 2 ^ k) = bitlen m + k"
    by (rule bitlen_shift [OF pos])
  have te: "max (e - int k + int (bitlen (m * 2 ^ k)) - 24) (- 149) = e"
  proof (cases "m < 2 ^ 23")
    case True
    with sub bitlen_subnormal [OF True] show ?thesis by (simp add: bl)
  next
    case False
    with m bitlen_normal [of m] e show ?thesis by (simp add: bl)
  qed
  show ?thesis
  proof (cases "k = 0")
    case True
    with pos te m e show ?thesis
      by (simp add: f32_round_def pack_plain)
  next
    case False
    then have half: "(0::nat) < 2 ^ (k - 1)" by simp
    from False pos te m e show ?thesis
      by (simp add: f32_round_def Let_def pack_plain)
  qed
qed

lemma f32_add_zero:
  assumes "is_f32 (Finite s m e)"
  shows "f32_eq (Finite s m e + Finite t 0 k) (Finite s m e)"
proof (cases "m = 0")
  case True
  then show ?thesis
    by (simp add: plus_float32_def f32_eq_def)
next
  case False
  define K where "K = nat (e + 149)"
  from assms have e: "- 149 \<le> e" by simp
  then have ek: "e - int K = - 149" by (simp add: K_def)
  have r: "f32_round s (m * 2 ^ K) (- 149) = Finite s m e"
    using f32_round_exact [OF assms, of K] by (simp only: ek)
  have n: "nat (int m * 2 ^ K) = m * 2 ^ K"
    by (simp add: nat_mult_distrib nat_power_eq)
  from False have pos: "0 < int m * 2 ^ K" by simp
  have nn: "\<not> int m * 2 ^ K < 0" by (simp add: not_less)
  have "Finite s m e + Finite t 0 k = Finite s m e"
    using pos nn r n False by (cases s) (simp_all add: plus_float32_def Let_def K_def [symmetric])
  then show ?thesis
    by (simp add: f32_eq_def)
qed

lemma f32_mul_one:
  assumes "is_f32 d"
  shows "1 * d = d"
proof (cases d)
  case (Finite s m e)
  have "f32_round s (m * 2 ^ 23) (e - int 23) = Finite s m e"
    using assms Finite by (intro f32_round_exact) simp
  then show ?thesis
    by (simp add: Finite times_float32_def one_float32_def mult.commute)
next
  case (Infinity s)
  then show ?thesis by (simp add: times_float32_def one_float32_def)
next
  case NaN
  then show ?thesis by (simp add: times_float32_def one_float32_def)
qed

lemma f32_zero_mul:
  "is_finite d \<Longrightarrow> \<exists>t. 0 * d = Finite t 0 (- 149)"
  by (cases d) (simp_all add: times_float32_def zero_float32_def f32_round_def)

text \<open>Every result of rounding is a binary32 datum, and it is never NaN.\<close>

lemma pack_valid:
  assumes "m \<le> 2 ^ 24" and "- 149 \<le> e" and "m < 2 ^ 23 \<Longrightarrow> e = - 149"
  shows "is_f32 (pack s m e)"
  using assms by (auto simp: pack_def)

lemma f32_round_valid: "is_f32 (f32_round s n e)"
proof (cases "n = 0")
  case True
  then show ?thesis by (simp add: f32_round_def)
next
  case False
  then have pos: "0 < n" by simp
  define L where "L = bitlen n"
  define te where "te = max (e + int L - 24) (- 149)"
  from bitlen_bounds [OF pos] have lo: "2 ^ (L - 1) \<le> n" and hi: "n < 2 ^ L"
    by (simp_all add: L_def)
  from bitlen_pos [OF pos] have Lpos: "0 < L" by (simp add: L_def)
  have te_lo: "- 149 \<le> te" by (simp add: te_def)
  show ?thesis
  proof (cases "te \<le> e")
    case True
    define d where "d = nat (e - te)"
    from True have L24: "L + d \<le> 24"
      unfolding te_def d_def max_def by (auto split: if_splits)
    have "n * 2 ^ d < 2 ^ L * 2 ^ d" using hi by simp
    also have "\<dots> = 2 ^ (L + d)" by (simp add: power_add)
    also have "\<dots> \<le> 2 ^ 24" using L24 by (intro power_increasing) simp_all
    finally have m: "n * 2 ^ d < 2 ^ 24" .
    have sub: "te = - 149" if "n * 2 ^ d < 2 ^ 23"
    proof (rule ccontr)
      assume "te \<noteq> - 149"
      then have "te = e + int L - 24" by (simp add: te_def max_def split: if_splits)
      with True have "L - 1 + d = 23" using Lpos by (simp add: d_def)
      then have "(2::nat) ^ 23 = 2 ^ (L - 1) * 2 ^ d" by (simp add: power_add [symmetric])
      also have "\<dots> \<le> n * 2 ^ d" using lo by simp
      finally show False using that by simp
    qed
    have "is_f32 (pack s (n * 2 ^ d) te)"
      using m te_lo sub by (intro pack_valid) simp_all
    with True False show ?thesis
      by (simp add: f32_round_def Let_def te_def L_def d_def)
  next
    case False
    define sh where "sh = nat (te - e)"
    define q where "q = n div 2 ^ sh"
    from False have sh: "L \<le> sh + 24" "0 < sh"
      unfolding te_def sh_def max_def by (auto split: if_splits)
    have "n < 2 ^ L" by (rule hi)
    also have "\<dots> \<le> 2 ^ (sh + 24)" using sh by (intro power_increasing) simp_all
    finally have "n < 2 ^ 24 * 2 ^ sh" by (simp add: power_add)
    then have q24: "q < 2 ^ 24"
      by (simp add: q_def less_mult_imp_div_less)
    have qsub: "te = - 149" if "q < 2 ^ 23"
    proof (rule ccontr)
      assume "te \<noteq> - 149"
      then have "te = e + int L - 24" by (simp add: te_def max_def split: if_splits)
      then have "L = sh + 24" using sh by (simp add: sh_def)
      then have "L - 1 = 23 + sh" by simp
      with lo have "2 ^ 23 * 2 ^ sh \<le> n" by (simp add: power_add)
      then have "2 ^ 23 \<le> q"
        by (simp add: q_def less_eq_div_iff_mult_less_eq)
      with that show False by simp
    qed
    have a: "is_f32 (pack s q te)"
      using q24 te_lo qsub by (intro pack_valid) simp_all
    have b: "is_f32 (pack s (q + 1) te)"
      using q24 te_lo qsub by (intro pack_valid) simp_all
    from False \<open>n \<noteq> 0\<close> a b show ?thesis
      by (simp add: f32_round_def Let_def te_def [symmetric] L_def [symmetric] sh_def [symmetric]
          q_def [symmetric])
  qed
qed

lemma f32_sub_valid: "is_f32 (a - b)"
  by (cases a; cases b) (simp_all add: minus_float32_def Let_def f32_round_valid)

lemma f32_round_not_nan: "\<not> is_nan (f32_round s n e)"
  by (simp add: f32_round_def pack_def Let_def)

lemma units_pack:
  assumes "- 149 \<le> e"
  shows "units (pack False m e) = int m * 2 ^ nat (e + 149) \<or> units (pack False m e) = 2 ^ 300"
proof (cases "m = 2 ^ 24")
  case True
  have "nat (e + 1 + 149) = Suc (nat (e + 149))" using assms by simp
  then have "units (Finite False (2 ^ 23) (e + 1)) = int (2 ^ 24) * 2 ^ nat (e + 149)"
    by simp
  moreover have "pack False m e = (if 104 < e + 1 then Infinity False else Finite False (2 ^ 23) (e + 1))"
    using True by (simp add: pack_def)
  ultimately show ?thesis
    using True by (cases "104 < e + 1") simp_all
next
  case False
  then show ?thesis by (simp add: pack_def)
qed

text \<open>Rounding to nearest loses less than one unit in the last place that is kept.\<close>

lemma f32_round_lower:
  assumes "0 < n" and "n < 2 ^ 300"
  shows "int n - 2 ^ (bitlen n - 24) < units (f32_round False n (- 149))"
proof -
  define L where "L = bitlen n"
  from bitlen_bounds [OF assms(1)] have hi: "n < 2 ^ L"
    by (simp add: L_def)
  have big: "int n - 2 ^ (L - 24) < 2 ^ 300"
  proof -
    have "int n < 2 ^ 300" using assms(2) by (metis of_nat_less_iff of_nat_numeral of_nat_power)
    moreover have "(0::int) < 2 ^ (L - 24)" by simp
    ultimately show ?thesis by linarith
  qed
  show ?thesis
  proof (cases "L \<le> 24")
    case True
    have "n < 2 ^ 24"
      using hi power_increasing [OF True, of "2::nat"] by simp
    then have "f32_round False n (- 149) = Finite False n (- 149)"
      using assms(1) True by (simp add: f32_round_def L_def [symmetric] pack_plain)
    then show ?thesis
      by (simp add: L_def [symmetric])
  next
    case False
    define sh where "sh = L - 24"
    define q where "q = n div 2 ^ sh"
    define m where "m = (if 2 ^ (sh - 1) < n mod 2 ^ sh \<or> (n mod 2 ^ sh = 2 ^ (sh - 1) \<and> odd q)
      then q + 1 else q)"
    from False have sh: "0 < sh" and sh1: "nat (int L - 24) = sh" and sh2: "int L - 173 = int sh - 149"
      by (simp_all add: sh_def)
    have r: "f32_round False n (- 149) = pack False m (int sh - 149)"
      using assms(1) sh False
      by (simp add: f32_round_def Let_def L_def [symmetric] sh1 sh2 m_def q_def)
    have "n = q * 2 ^ sh + n mod 2 ^ sh"
      by (simp only: q_def div_mult_mod_eq)
    moreover have "n mod 2 ^ sh < 2 ^ sh" by simp
    ultimately have "n < q * 2 ^ sh + 2 ^ sh" by linarith
    moreover have "q * 2 ^ sh \<le> m * 2 ^ sh" by (simp add: m_def)
    ultimately have "n < m * 2 ^ sh + 2 ^ sh" by linarith
    then have "int n < int (m * 2 ^ sh + 2 ^ sh)" by (simp only: of_nat_less_iff)
    then have m: "int n - 2 ^ sh < int m * 2 ^ sh" by simp
    from units_pack [of "int sh - 149" m]
    have "units (pack False m (int sh - 149)) = int m * 2 ^ sh
        \<or> units (pack False m (int sh - 149)) = 2 ^ 300"
      by simp
    with m big show ?thesis
      by (auto simp: r L_def [symmetric] sh_def)
  qed
qed

text \<open>Between 0 and 2, adding 1 always gives a larger float.\<close>

lemma add_one_increases:
  assumes "0 \<le> w" and "w < f32_of_int 2"
  shows "w < w + 1"
proof (cases w)
  case (Finite s m e)
  define u where "u = units w"
  have two: "f32_of_int 2 = Finite False 8388608 (- 22)"
    by (simp add: f32_of_int_def f32_round_def bitlen.simps pack_def)
  from assms have u: "0 \<le> u" "u < 2 ^ 150"
    by (simp_all add: u_def two less_float32_def less_eq_float32_def f32_less_def f32_le_def
        zero_float32_def)
  define n where "n = nat (u + 2 ^ 149)"
  have n: "int n = u + 2 ^ 149" using u by (simp add: n_def)
  have npos: "0 < n" using u by (simp add: n_def)
  have "int n < 2 ^ 151" using u n by simp
  then have n151: "n < 2 ^ 151"
    by (metis of_nat_less_iff of_nat_numeral of_nat_power)
  then have "n < 2 ^ 300"
    by (rule less_le_trans) simp
  from f32_round_lower [OF npos this]
  have lower: "int n - 2 ^ (bitlen n - 24) < units (f32_round False n (- 149))" .
  have "bitlen n - 24 \<le> 149" using bitlen_le [OF n151] by simp
  then have "(2::int) ^ (bitlen n - 24) \<le> 2 ^ 149"
    by (intro power_increasing) simp_all
  with lower n have gt: "u < units (f32_round False n (- 149))" by linarith
  have sum: "w + 1 = f32_round False n (- 149)"
    using u by (simp add: Finite plus_float32_def one_float32_def Let_def n_def u_def)
  have "\<not> is_nan w" by (simp add: Finite)
  moreover have "\<not> is_nan (w + 1)" by (simp only: sum f32_round_not_nan not_False_eq_True)
  moreover have "units w < units (w + 1)" using gt by (simp only: sum u_def)
  ultimately show ?thesis
    unfolding less_float32_def f32_less_def by blast
next
  case (Infinity s)
  with assms show ?thesis
    by (cases s) (simp_all add: less_float32_def less_eq_float32_def f32_less_def f32_le_def
        zero_float32_def f32_of_int_def f32_round_def bitlen.simps pack_def)
next
  case NaN
  with assms show ?thesis
    by (simp add: less_eq_float32_def f32_le_def)
qed

subsection \<open>Comparison and the two ends of an interpolation\<close>

lemma f32_eq_not_less: "f32_eq a b \<Longrightarrow> \<not> a < b"
  by (simp add: f32_eq_def less_float32_def f32_less_def)

lemma interpolation_factor_0: "((0::float32) - 0) / (1 - 0) = 0"
  by (simp add: f32_arith)

lemma interpolation_factor_1: "((1::float32) - 0) / (1 - 0) = 1"
  by (simp add: f32_arith)

lemma f32_add_exact:
  assumes b: "is_f32 (Finite s m e)" and a: "is_finite a" and d: "is_finite d"
    and u: "units a + units d = units (Finite s m e)"
  shows "f32_eq (a + d) (Finite s m e)"
proof -
  from a obtain sa ma ea where A: "a = Finite sa ma ea" by (cases a) auto
  from d obtain sd md ed where D: "d = Finite sd md ed" by (cases d) auto
  define K where "K = nat (e + 149)"
  from b have "- 149 \<le> e" by simp
  then have ek: "e - int K = - 149" by (simp add: K_def)
  have r: "f32_round s (m * 2 ^ K) (- 149) = Finite s m e"
    using f32_round_exact [OF b, of K] by (simp only: ek)
  have U: "units (Finite sa ma ea) + units (Finite sd md ed) = (if s then - 1 else 1) * (int m * 2 ^ K)"
    using u by (simp add: A D K_def)
  show ?thesis
  proof (cases "m = 0")
    case True
    with U show ?thesis
      unfolding A D plus_float32_def f32_add.simps Let_def U by (simp add: f32_eq_def)
  next
    case False
    then have pos: "0 < int m * 2 ^ K" by simp
    have nn: "\<not> int m * 2 ^ K < 0" by (simp add: not_less)
    have n: "nat (int m * 2 ^ K) = m * 2 ^ K"
      by (simp add: nat_mult_distrib nat_power_eq)
    have "a + d = Finite s m e"
      unfolding A D plus_float32_def f32_add.simps Let_def U
      using pos nn r n False by (cases s) simp_all
    then show ?thesis
      by (simp add: f32_eq_def)
  qed
qed

lemma interpolate_at_0:
  assumes "is_f32 a" and "is_finite a" and "is_finite d"
  shows "f32_eq (a + 0 * d) a"
proof -
  from assms(2) obtain s m e where A: "a = Finite s m e" by (cases a) auto
  from f32_zero_mul [OF assms(3)] obtain t where z: "0 * d = Finite t 0 (- 149)" by blast
  show ?thesis
    using assms(1) unfolding A z by (rule f32_add_zero)
qed

lemma sub_finite_left: "is_finite (b - a) \<Longrightarrow> is_finite a"
  by (cases a; cases b) (simp_all add: minus_float32_def split: if_splits)

lemma sub_finite_right: "is_finite (b - a) \<Longrightarrow> is_finite b"
  by (cases a; cases b) (simp_all add: minus_float32_def split: if_splits)

lemma interpolate_at_1:
  assumes "is_f32 b" and "exact_sub b a"
  shows "f32_eq (a + 1 * (b - a)) b"
proof -
  have one: "1 * (b - a) = b - a"
    by (rule f32_mul_one) (rule f32_sub_valid)
  from assms(2) have fin: "is_finite (b - a)" and ex: "units (b - a) = units b - units a"
    by (simp_all add: exact_sub_def)
  from fin have fa: "is_finite a" and fb: "is_finite b"
    by (rule sub_finite_left, rule sub_finite_right)
  from fb obtain s m e where B: "b = Finite s m e" by (cases b) auto
  have v: "is_f32 (Finite s m e)" using assms(1) by (simp only: B)
  have "units a + units (b - a) = units (Finite s m e)" using ex by (simp only: B)
  with v fa fin have "f32_eq (a + (b - a)) (Finite s m e)"
    by (intro f32_add_exact)
  then show ?thesis
    unfolding one by (simp only: B [symmetric])
qed

section \<open>Worked examples\<close>

text \<open>
  One cell at the origin with step 1, the field \<open>f(x, y, z) = x\<close> and the isovalue 1/2:
  the corners 0, 3, 4 and 7 are below the isovalue, the index is 153, and the two
  triangles of row 153 lie in the plane \<open>x = 1/2\<close>.
\<close>

lemma upt_8: "[0..<8] = [0, 1, 2, 3, 4, 5, 6, 7]"
  by (simp add: upt_rec)

lemma unit_cell_facts:
  "(0::float32) * 1 = 0" "(1::float32) * 1 = 1" "(0::float32) + 0 = 0" "(0::float32) + 1 = 1"
  "(0::float32) < 1" "\<not> (1::float32) < 1"
  by (simp_all add: f32_arith)

lemma corner_pos_example: "corner_pos (Vec3 0 0 0) 1 = cubeVerts"
  by (simp add: corner_pos_def upt_8 cubeVerts_def vadd_def vmuls_def unit_cell_facts)

lemma corner_val_example: "corner_val (\<lambda>x y z. x) cubeVerts = [0, 1, 1, 0, 0, 1, 1, 0]"
  by (simp add: corner_val_def upt_8 cubeVerts_def)

lemma cube_index_example: "cube_index [0, 1, 1, 0, 0, 1, 1, 0] half = 153"
  by (simp add: cube_index_def upt_8 half_def f32_arith)

lemma lut_example_row:
  "length lut_example = 256"
  "lut_example ! 153 = [0, 4, 6, 0, 6, 2, - 1, - 1, - 1, - 1, - 1, - 1, - 1, - 1, - 1, - 1]"
  by (simp_all add: lut_example_def)

lemma lut_example_255:
  "255 < length lut_example" "lut_example ! 255 \<noteq> []" "lut_example ! 255 ! 0 = - 1"
  by (simp_all add: lut_example_def)

lemma interpolate_examples:
  "interpolateVertex (Vec3 0 0 0) (Vec3 1 0 0) 0 1 half = Vec3 half 0 0"
  "interpolateVertex (Vec3 0 1 0) (Vec3 1 1 0) 0 1 half = Vec3 half 1 0"
  "interpolateVertex (Vec3 1 1 1) (Vec3 0 1 1) 1 0 half = Vec3 half 1 1"
  "interpolateVertex (Vec3 1 0 1) (Vec3 0 0 1) 1 0 half = Vec3 half 0 1"
  by (simp_all add: interpolateVertex_def vadd_def vsub_def smulv_def half_def f32_arith)

lemma edge_vertices_example:
  "length (edge_vertices cubeVerts [0, 1, 1, 0, 0, 1, 1, 0] half) = 12"
  "edge_vertices cubeVerts [0, 1, 1, 0, 0, 1, 1, 0] half ! 0 = Vec3 half 0 0"
  "edge_vertices cubeVerts [0, 1, 1, 0, 0, 1, 1, 0] half ! 4 = Vec3 half 1 0"
  "edge_vertices cubeVerts [0, 1, 1, 0, 0, 1, 1, 0] half ! 6 = Vec3 half 1 1"
  "edge_vertices cubeVerts [0, 1, 1, 0, 0, 1, 1, 0] half ! 2 = Vec3 half 0 1"
  by (simp_all add: edge_vertices_def edgeConnections_def cubeVerts_def interpolate_examples)

lemma build_triangles_example:
  "build_triangles [0, 4, 6, 0, 6, 2, - 1, - 1, - 1, - 1, - 1, - 1, - 1, - 1, - 1, - 1]
     (edge_vertices cubeVerts [0, 1, 1, 0, 0, 1, 1, 0] half) 0 [] =
   Inr [half, 0, 0, half, 1, 0, half, 1, 1, half, 0, 0, half, 1, 1, half, 0, 1]"
  by (simp add: build_triangles.simps push_vec_def edge_vertices_example)

lemma process_cube_example:
  "process_cube lut_example (\<lambda>x y z. x) half 1 0 0 0 [] =
     Inr [half, 0, 0, half, 1, 0, half, 1, 1, half, 0, 0, half, 1, 1, half, 0, 1]"
  by (simp add: process_cube_def corner_pos_example corner_val_example cube_index_example
      lut_example_row build_triangles_example)

lemma marching_cubes_example:
  "marching_cubes 2 lut_example (\<lambda>x y z. x) half 0 1 1 =
     Some (Inr [half, 0, 0, half, 1, 0, half, 1, 1, half, 0, 0, half, 1, 1, half, 0, 1])"
  by (simp add: marching_cubes_def numeral_2_eq_2 unit_cell_facts process_cube_example)

text \<open>The triangle \<open>(0,0,0), (1,0,0), (0,1,0)\<close> has the normal \<open>(0,0,1)\<close>.\<close>

lemma isqrt_bits_numeral:
  "isqrt_bits (numeral k) n r =
     (let t = r + 2 ^ pred_numeral k
      in if t * t \<le> n then isqrt_bits (pred_numeral k) n t else isqrt_bits (pred_numeral k) n r)"
  by (simp add: numeral_eq_Suc)

lemma isqrt_example: "isqrt 309485009821345068724781056 = 17592186044416"
proof -
  have "bitlen 309485009821345068724781056 = 89"
    by (simp add: bitlen.simps)
  then show ?thesis
    by (simp add: isqrt_def isqrt_bits_numeral Let_def)
qed

lemma sqrt_one: "f32_sqrt 1 = 1"
  by (simp add: one_float32_def isqrt_example f32_round_def pack_def bitlen.simps Let_def)

lemma normal_example_facts:
  "(0::float32) * 0 = 0" "(1::float32) * 0 = 0" "(0::float32) * 1 = 0" "(1::float32) * 1 = 1"
  "(0::float32) - 0 = 0" "(1::float32) - 0 = 1" "(0::float32) + 0 = 0" "(0::float32) + 1 = 1"
  "(1::float32) / 1 = 1"
  by (simp_all add: f32_arith)

lemma triangle_normal_example:
  "triangle_normal [0, 0, 0, 1, 0, 0, 0, 1, 0] 0 = Vec3 0 0 1"
  by (simp add: triangle_normal_def normalize_v_def cross_def dot_def inversesqrt_def vsub_def
      vmuls_def normal_example_facts sqrt_one)

lemma replicate_3: "replicate 3 x = [x, x, x]"
  by (simp add: numeral_3_eq_3)

lemma flat_normals_example:
  "flat_normals [0, 0, 0, 1, 0, 0, 0, 1, 0] = [0, 0, 1, 0, 0, 1, 0, 0, 1]"
  by (simp add: flat_normals_def triangle_normal_example coords_def replicate_3)

text \<open>
  From \<open>2^24\<close> on, binary32 has no odd integers: \<open>2^24 + 1\<close> rounds back to \<open>2^24\<close>, and
  \<open>2^25 + 1\<close> to \<open>2^25\<close>.  For the same reason \<open>1 - 2^25\<close> rounds to \<open>-2^25\<close>.
\<close>

lemma stuck_example:
  "f32_of_int 16777216 + 1 = f32_of_int 16777216"
  "f32_of_int 16777216 < f32_of_int 33554432"
  "(0::float32) < 1"
  by (simp_all add: f32_of_int_def f32_round_def bitlen.simps pack_def plus_float32_def
      one_float32_def zero_float32_def less_float32_def f32_less_def Let_def)

lemma stuck_example_2:
  "f32_of_int 33554432 + 1 = f32_of_int 33554432"
  "f32_of_int 33554432 < f32_of_int 67108864"
  by (simp_all add: f32_of_int_def f32_round_def bitlen.simps pack_def plus_float32_def
      one_float32_def less_float32_def f32_less_def Let_def)

lemma two_example: "(0::float32) < f32_of_int 2"
  by (simp add: f32_of_int_def f32_round_def bitlen.simps pack_def zero_float32_def
      less_float32_def f32_less_def)

lemma big_example: "f32_of_int 33554432 = Finite False 8388608 2"
  by (simp add: f32_of_int_def f32_round_def bitlen.simps pack_def)

lemma big_example_sub: "(1::float32) - Finite False 8388608 2 = Finite True 8388608 2"
  by (simp add: f32_arith)

lemma big_example_mul: "(1::float32) * Finite True 8388608 2 = Finite True 8388608 2"
  by (rule f32_mul_one) simp

lemma big_example_add: "Finite False 8388608 2 + Finite True 8388608 2 = (0::float32)"
  by (simp add: f32_arith)

lemma zero_facts: "(0::float32) - 0 = 0" "(1::float32) * 0 = 0" "(0::float32) + 0 = 0"
  by (simp_all add: f32_arith)

section \<open>Properties of marching.cpp\<close>

subsection \<open>The configuration index\<close>

lemma cube_index_fold_bit:
  "bit (fold (\<lambda>i cubeIndex. if val ! i < isovalue then cubeIndex OR push_bit i 1 else cubeIndex)
          [0..<n] (0::int)) k \<longleftrightarrow> k < n \<and> val ! k < isovalue"
proof (induction n)
  case 0
  then show ?case by simp
next
  case (Suc n)
  show ?case
    using Suc.IH by (auto simp: bit_or_iff bit_exp_iff less_Suc_eq)
qed

text \<open>
  Claim C1.  In every cell, bit \<open>i\<close> of the configuration index is set exactly when
  \<open>i\<close> is one of the eight corners and the sample at corner \<open>i\<close> is strictly less than
  the isovalue; a sample that compares equal to the isovalue leaves bit \<open>i\<close> unset.
\<close>

theorem cube_index_bit:
  "(bit (cube_index val isovalue) i \<longleftrightarrow> i < 8 \<and> val ! i < isovalue)
   \<and> (f32_eq (val ! i) isovalue \<longrightarrow> \<not> bit (cube_index val isovalue) i)"
proof -
  have "bit (cube_index val isovalue) i \<longleftrightarrow> i < 8 \<and> val ! i < isovalue"
    unfolding cube_index_def by (rule cube_index_fold_bit)
  then show ?thesis
    by (auto dest: f32_eq_not_less)
qed

text \<open>
  At the samples \<open>0, 1, 1, 0, 0, 1, 1, 0\<close> and the isovalue 1, corner 0 is below the
  isovalue and its bit is set; corner 1 is equal to it and its bit is not.
\<close>

theorem cube_index_bit_witness:
  "bit (cube_index [0, 1, 1, 0, 0, 1, 1, 0] 1) 0
   \<and> f32_eq ([0, 1, 1, 0, 0, 1, 1, 0] ! 1) 1
   \<and> \<not> bit (cube_index [0, 1, 1, 0, 0, 1, 1, 0] 1) 1"
  using cube_index_bit [of "[0, 1, 1, 0, 0, 1, 1, 0]" 1 0]
    cube_index_bit [of "[0, 1, 1, 0, 0, 1, 1, 0]" 1 1]
  by (simp add: f32_eq_def less_float32_def f32_less_def zero_float32_def one_float32_def)

subsection \<open>interpolateVertex\<close>

text \<open>
  Claim C2, as amended.  \<open>interpolateVertex\<close> returns \<open>p1 + t * (p2 - p1)\<close> with
  \<open>t = (isovalue - valp1) / (valp2 - valp1)\<close>, every operation rounded to \<open>float\<close>.
  \<open>interpolateVertex(p1, p2, 0, 1, 0)\<close> compares equal to \<open>p1\<close> when the components of
  \<open>p1\<close> and of the float difference \<open>p2 - p1\<close> are finite.
  \<open>interpolateVertex(p1, p2, 0, 1, 1)\<close> compares equal to \<open>p2\<close> when the float difference
  \<open>p2 - p1\<close> is finite and was computed without rounding.
\<close>

theorem interpolateVertex_formula:
  "interpolateVertex p1 p2 valp1 valp2 isovalue =
     vadd p1 (smulv ((isovalue - valp1) / (valp2 - valp1)) (vsub p2 p1))
   \<and> (vec_all is_f32 p1 \<and> vec_all is_finite p1 \<and> vec_all is_finite (vsub p2 p1) \<longrightarrow>
        vec_all2 f32_eq (interpolateVertex p1 p2 0 1 0) p1)
   \<and> (vec_all is_f32 p2 \<and> vec_all2 exact_sub p2 p1 \<longrightarrow>
        vec_all2 f32_eq (interpolateVertex p1 p2 0 1 1) p2)"
proof (intro conjI impI)
  show "interpolateVertex p1 p2 valp1 valp2 isovalue =
      vadd p1 (smulv ((isovalue - valp1) / (valp2 - valp1)) (vsub p2 p1))"
    by (simp add: interpolateVertex_def)
next
  assume "vec_all is_f32 p1 \<and> vec_all is_finite p1 \<and> vec_all is_finite (vsub p2 p1)"
  then show "vec_all2 f32_eq (interpolateVertex p1 p2 0 1 0) p1"
    by (simp add: interpolateVertex_def interpolation_factor_0 vec_all_def vec_all2_def vadd_def
        smulv_def vsub_def interpolate_at_0)
next
  assume "vec_all is_f32 p2 \<and> vec_all2 exact_sub p2 p1"
  then show "vec_all2 f32_eq (interpolateVertex p1 p2 0 1 1) p2"
    by (simp add: interpolateVertex_def interpolation_factor_1 vec_all_def vec_all2_def vadd_def
        smulv_def vsub_def interpolate_at_1)
qed

text \<open>The two ends of the edge from \<open>(0,0,0)\<close> to \<open>(1,0,0)\<close>.\<close>

theorem interpolateVertex_formula_witness:
  "vec_all is_f32 (Vec3 0 0 0) \<and> vec_all is_finite (Vec3 0 0 0)
   \<and> vec_all is_finite (vsub (Vec3 1 0 0) (Vec3 0 0 0))
   \<and> vec_all2 f32_eq (interpolateVertex (Vec3 0 0 0) (Vec3 1 0 0) 0 1 0) (Vec3 0 0 0)
   \<and> vec_all is_f32 (Vec3 1 0 0) \<and> vec_all2 exact_sub (Vec3 1 0 0) (Vec3 0 0 0)
   \<and> vec_all2 f32_eq (interpolateVertex (Vec3 0 0 0) (Vec3 1 0 0) 0 1 1) (Vec3 1 0 0)"
proof -
  have h1: "vec_all is_f32 (Vec3 0 0 0) \<and> vec_all is_finite (Vec3 0 0 0)
      \<and> vec_all is_finite (vsub (Vec3 1 0 0) (Vec3 0 0 0))"
    by (simp add: vec_all_def vsub_def f32_arith)
  have h2: "vec_all is_f32 (Vec3 1 0 0) \<and> vec_all2 exact_sub (Vec3 1 0 0) (Vec3 0 0 0)"
    by (simp add: vec_all_def vec_all2_def exact_sub_def f32_arith)
  show ?thesis
    using h1 h2 interpolateVertex_formula [of "Vec3 0 0 0" "Vec3 1 0 0" 0 1 0]
    by blast
qed

text \<open>
  The claim as it was stated fails: from \<open>p1 = (2^25, 0, 0)\<close> to \<open>p2 = (1, 0, 0)\<close> the
  difference \<open>1 - 2^25\<close> rounds to \<open>-2^25\<close>, so \<open>interpolateVertex(p1, p2, 0, 1, 1)\<close> is
  \<open>(0, 0, 0)\<close> and not \<open>p2\<close>.
\<close>

theorem interpolateVertex_not_exact:
  "interpolateVertex (Vec3 (f32_of_int 33554432) 0 0) (Vec3 1 0 0) 0 1 1 = Vec3 0 0 0
   \<and> \<not> f32_eq 0 1"
proof -
  have "\<not> f32_eq 0 1"
    by (simp add: f32_eq_def zero_float32_def one_float32_def)
  then show ?thesis
    by (simp add: big_example interpolateVertex_def vadd_def vsub_def smulv_def
        interpolation_factor_1 big_example_sub big_example_mul big_example_add zero_facts)
qed

subsection \<open>The length of the vertex sequence\<close>

lemma triangle_loop_length:
  "triangle_loop triEdges edgeVertex i js vertices = Inr vertices' \<Longrightarrow>
   length vertices' = length vertices + 3 * length js"
  by (induction js arbitrary: vertices) (auto simp: push_vec_def split: if_splits)

lemma build_triangles_dvd:
  "build_triangles triEdges edgeVertex i vertices = Inr vertices' \<Longrightarrow>
   9 dvd length vertices \<Longrightarrow> 9 dvd length vertices'"
proof (induction triEdges edgeVertex i vertices rule: build_triangles.induct)
  case (1 triEdges edgeVertex i vertices)
  show ?case
  proof (cases "length triEdges \<le> i \<or> triEdges ! i = - 1")
    case True
    with "1.prems" show ?thesis
      by (auto simp: build_triangles.simps [of triEdges edgeVertex i vertices] split: if_splits)
  next
    case False
    then obtain vs where vs: "triangle_loop triEdges edgeVertex i [0, 1, 2] vertices = Inr vs"
      and rest: "build_triangles triEdges edgeVertex (i + 3) vs = Inr vertices'"
      using "1.prems"(1)
      by (auto simp: build_triangles.simps [of triEdges edgeVertex i vertices] split: sum.splits)
    have "length vs = length vertices + 9"
      using triangle_loop_length [OF vs] by simp
    then have "9 dvd length vs"
      using "1.prems"(2) by simp
    with "1.IH" [of vs] False vs rest show ?thesis by simp
  qed
qed

lemma process_cube_dvd:
  "process_cube lut f isovalue stepsize x y z vertices = Inr vertices' \<Longrightarrow>
   9 dvd length vertices \<Longrightarrow> 9 dvd length vertices'"
  by (auto simp: process_cube_def Let_def split: if_splits dest: build_triangles_dvd)

lemma for_loop_invariant:
  assumes "for_loop n maxb stepsize body v s = Some (Inr s')"
    and "P s"
    and "\<And>w t t'. P t \<Longrightarrow> body w t = Some (Inr t') \<Longrightarrow> P t'"
  shows "P s'"
  using assms(1,2)
proof (induction n arbitrary: v s)
  case 0
  then show ?case by simp
next
  case (Suc n)
  show ?case
  proof (cases "v < maxb")
    case True
    with Suc.prems(1) obtain t where t: "body v s = Some (Inr t)"
      and rest: "for_loop n maxb stepsize body (v + stepsize) t = Some (Inr s')"
      by (auto split: option.splits sum.splits)
    from assms(3) [OF Suc.prems(2) t] have "P t" .
    with Suc.IH [OF rest] show ?thesis .
  next
    case False
    with Suc.prems show ?thesis by simp
  qed
qed

text \<open>
  Claim C3.  Whatever the field, the isovalue, the bounds, the step size and the table,
  a vertex sequence that \<open>marching_cubes\<close> returns has a length that is a multiple of 9.
\<close>

theorem marching_cubes_length:
  assumes "marching_cubes n lut f isovalue minb maxb stepsize = Some (Inr vertices)"
  shows "9 dvd length vertices"
proof -
  let ?P = "\<lambda>vs :: float32 list. 9 dvd length vs"
  have cell: "\<And>x y w t t'. ?P t \<Longrightarrow>
      Some (process_cube lut f isovalue stepsize x y w t) = Some (Inr t') \<Longrightarrow> ?P t'"
    by (auto dest: process_cube_dvd)
  have zl: "\<And>x w t t'. ?P t \<Longrightarrow>
      for_loop n maxb stepsize
        (\<lambda>z vertices. Some (process_cube lut f isovalue stepsize x w z vertices)) minb t = Some (Inr t')
      \<Longrightarrow> ?P t'"
    by (rule for_loop_invariant [where P = ?P]) (auto dest: process_cube_dvd)
  have yl: "\<And>w t t'. ?P t \<Longrightarrow>
      for_loop n maxb stepsize
        (\<lambda>y. for_loop n maxb stepsize
           (\<lambda>z vertices. Some (process_cube lut f isovalue stepsize w y z vertices)) minb) minb t
        = Some (Inr t')
      \<Longrightarrow> ?P t'"
    by (rule for_loop_invariant [where P = ?P]) (auto dest: zl)
  show ?thesis
    using assms unfolding marching_cubes_def
    by (rule for_loop_invariant [where P = ?P]) (auto dest: yl)
qed

text \<open>The worked example returns two triangles, 18 floats.\<close>

theorem marching_cubes_length_witness:
  "marching_cubes 2 lut_example (\<lambda>x y z. x) half 0 1 1 =
     Some (Inr [half, 0, 0, half, 1, 0, half, 1, 1, half, 0, 0, half, 1, 1, half, 0, 1])
   \<and> 9 dvd length [half, 0, 0, half, 1, 0, half, 1, 1, half, 0, 0, half, 1, 1, half, 0, 1]"
  using marching_cubes_length [OF marching_cubes_example] marching_cubes_example
  by simp

subsection \<open>compute_normals\<close>

lemma upt_3: "[0..<3] = [0, 1, 2]"
  by (simp add: upt_rec)

lemma push_normal_thrice:
  "fold (\<lambda>j ns. push_vec ns v) [0..<3] normals = normals @ concat (replicate 3 (coords v))"
  by (simp add: upt_3 push_vec_def coords_def numeral_3_eq_3)

lemma normals_loop_step:
  assumes "9 * a + 8 < length vertices"
  shows "normals_loop vertices (9 * a) normals =
    normals_loop vertices (9 * a + 9)
      (normals @ concat (replicate 3 (coords (triangle_normal vertices a))))"
  using assms
  by (subst normals_loop.simps) (simp add: Let_def push_normal_thrice triangle_normal_def)

lemma normals_loop_flat:
  "9 dvd i \<Longrightarrow> 9 dvd length vertices \<Longrightarrow>
   normals_loop vertices i normals =
     Inr (normals @ concat (map (\<lambda>k. concat (replicate 3 (coords (triangle_normal vertices k))))
            [i div 9..<length vertices div 9]))"
proof (induction vertices i normals rule: normals_loop.induct)
  case (1 vertices i normals)
  show ?case
  proof (cases "i < length vertices")
    case False
    then have "length vertices div 9 \<le> i div 9"
      by (simp add: div_le_mono)
    with False show ?thesis
      by (simp add: normals_loop.simps [of vertices i normals])
  next
    case True
    from "1.prems" obtain a b where a: "i = 9 * a" and b: "length vertices = 9 * b"
      by (auto simp: dvd_def)
    with True have ab: "a < b" by simp
    then have room: "9 * a + 8 < length vertices"
      using b by simp
    have step: "[i div 9..<length vertices div 9] = a # [(i + 9) div 9..<length vertices div 9]"
      using ab a b by (simp add: upt_conv_Cons)
    have "9 dvd i + 9" using "1.prems"(1) by simp
    from "1.IH" [OF _ _ refl refl refl refl this "1.prems"(2)] True room
    have "normals_loop vertices (i + 9)
        (normals @ concat (replicate 3 (coords (triangle_normal vertices a)))) =
      Inr ((normals @ concat (replicate 3 (coords (triangle_normal vertices a)))) @
        concat (map (\<lambda>k. concat (replicate 3 (coords (triangle_normal vertices k))))
          [(i + 9) div 9..<length vertices div 9]))"
      using a
      by (simp add: Let_def push_normal_thrice triangle_normal_def)
    then show ?thesis
      using normals_loop_step [OF room, of normals] a step by simp
  qed
qed

lemma length_flat_normals: "length (flat_normals vertices) = 9 * (length vertices div 9)"
proof -
  have "\<And>ks. length (concat (map (\<lambda>k. concat (replicate 3 (coords (triangle_normal vertices k)))) ks))
      = 9 * length ks"
    subgoal for ks by (induction ks) (simp_all add: coords_def numeral_3_eq_3)
    done
  then show ?thesis by (simp add: flat_normals_def)
qed

text \<open>
  Claim C4, as amended.  For every vertex sequence whose length is a multiple of 9,
  \<open>compute_normals\<close> returns a normal sequence of the same length, in which each
  triangle's normal \<open>normalize(cross(v1 - v0, v2 - v0))\<close> stands three times.
\<close>

theorem compute_normals_flat:
  assumes "9 dvd length vertices"
  shows "compute_normals vertices = Inr (flat_normals vertices)
    \<and> length (flat_normals vertices) = length vertices"
  using assms normals_loop_flat [of 0 vertices "[]"]
  by (auto simp: compute_normals_def flat_normals_def length_flat_normals [unfolded flat_normals_def])

text \<open>The triangle \<open>(0,0,0), (1,0,0), (0,1,0)\<close>: three times the normal \<open>(0,0,1)\<close>.\<close>

theorem compute_normals_flat_witness:
  "9 dvd length [0, 0, 0, 1, 0, 0, 0, 1, 0 :: float32]
   \<and> compute_normals [0, 0, 0, 1, 0, 0, 0, 1, 0] = Inr [0, 0, 1, 0, 0, 1, 0, 0, 1]
   \<and> length [0, 0, 1, 0, 0, 1, 0, 0, 1 :: float32] = length [0, 0, 0, 1, 0, 0, 0, 1, 0 :: float32]"
proof -
  have len: "length [0, 0, 0, 1, 0, 0, 0, 1, 0 :: float32] = 9"
    by simp
  have h: "9 dvd length [0, 0, 0, 1, 0, 0, 0, 1, 0 :: float32]"
    by (simp only: len dvd_refl)
  from compute_normals_flat [OF h] h show ?thesis
    by (simp only: flat_normals_example)
qed

text \<open>
  The claim as it was stated fails on a sequence of 3 floats: the loop reads
  \<open>vertices[3]\<close>, outside the vector.
\<close>

theorem compute_normals_short_input:
  "compute_normals [0, 0, 0] = Inl OutOfBounds"
  by (simp add: compute_normals_def normals_loop.simps)

subsection \<open>Bounds that enclose nothing\<close>

text \<open>
  Claim C5.  When \<open>max <= min\<close>, \<open>marching_cubes\<close> returns the empty vertex sequence,
  without a fault, whatever the field, the isovalue, the step size and the table.
\<close>

theorem empty_when_max_le_min:
  "maxb \<le> minb \<Longrightarrow> marching_cubes (Suc n) lut f isovalue minb maxb stepsize = Some (Inr [])"
  by (simp add: marching_cubes_def less_float32_def less_eq_float32_def f32_less_def f32_le_def)

text \<open>The bounds \<open>min = 1\<close>, \<open>max = 0\<close>.\<close>

theorem empty_when_max_le_min_witness:
  "(0::float32) \<le> 1 \<and> marching_cubes (Suc 0) [] (\<lambda>x y z. x) 0 1 0 1 = Some (Inr [])"
  using empty_when_max_le_min [of 0 1 0 "[]" "\<lambda>x y z. x" 0 1]
  by (simp add: less_eq_float32_def f32_le_def zero_float32_def one_float32_def)

subsection \<open>The header that write_ply writes\<close>

lemma digit_val_digit_char: "d < 10 \<Longrightarrow> digit_val (digit_char d) = Some d"
proof -
  assume "d < 10"
  then have "d = 0 \<or> d = 1 \<or> d = 2 \<or> d = 3 \<or> d = 4 \<or> d = 5 \<or> d = 6 \<or> d = 7
    \<or> d = 8 \<or> d = 9"
    by arith
  then show ?thesis
    by (elim disjE) (simp_all add: digit_val_def digit_char_def Let_def)
qed

lemma digit_char_not_newline: "d < 10 \<Longrightarrow> digit_char d \<noteq> CHR 0x0A"
proof -
  assume "d < 10"
  then have "d = 0 \<or> d = 1 \<or> d = 2 \<or> d = 3 \<or> d = 4 \<or> d = 5 \<or> d = 6 \<or> d = 7
    \<or> d = 8 \<or> d = 9"
    by arith
  then show ?thesis
    by (elim disjE) (simp_all add: digit_char_def)
qed

lemma parse_digits_append:
  "parse_digits (xs @ ys) acc =
     (case parse_digits xs acc of None \<Rightarrow> None | Some a \<Rightarrow> parse_digits ys a)"
  by (induction xs arbitrary: acc) (auto split: option.splits)

lemma parse_digits_dec: "parse_digits (dec n) 0 = Some n"
proof (induction n rule: dec.induct)
  case (1 n)
  show ?case
  proof (cases "n < 10")
    case True
    then show ?thesis
      by (simp add: dec.simps [of n] digit_val_digit_char)
  next
    case False
    with "1.IH" show ?thesis
      by (simp add: dec.simps [of n] parse_digits_append digit_val_digit_char)
  qed
qed

lemma dec_not_empty: "dec n \<noteq> []"
  by (simp add: dec.simps [of n])

lemma parse_dec_dec: "parse_dec (dec n) = Some n"
  by (simp add: parse_dec_def dec_not_empty parse_digits_dec)

lemma dec_no_newline: "CHR 0x0A \<notin> set (dec n)"
proof (induction n rule: dec.induct)
  case (1 n)
  show ?case
  proof (cases "n < 10")
    case True
    then show ?thesis
      using digit_char_not_newline [of n] by (simp add: dec.simps [of n])
  next
    case False
    with "1.IH" show ?thesis
      using digit_char_not_newline [of "n mod 10"] by (simp add: dec.simps [of n])
  qed
qed

lemma lines_of_not_empty: "lines_of s \<noteq> []"
  by (cases s) (auto split: list.splits)

lemma lines_of_line:
  "CHR 0x0A \<notin> set l \<Longrightarrow> lines_of (l @ CHR 0x0A # rest) = l # lines_of rest"
  by (induction l) (auto split: list.splits)

lemma lines_of_dec: "lines_of (dec n @ CHR 0x0A # rest) = dec n # lines_of rest"
  by (rule lines_of_line) (rule dec_no_newline)

lemma ply_header_lines:
  "ply_header n @ rest =
     ''ply'' @ CHR 0x0A # ''format ascii 1.0'' @ CHR 0x0A # (''element vertex '' @ dec n) @ CHR 0x0A #
     ''property float x'' @ CHR 0x0A # ''property float y'' @ CHR 0x0A #
     ''property float z'' @ CHR 0x0A # ''property float nx'' @ CHR 0x0A #
     ''property float ny'' @ CHR 0x0A # ''property float nz'' @ CHR 0x0A #
     ''end_header'' @ CHR 0x0A # rest"
  by (simp add: ply_header_def newline_def)

lemma lines_of_ply_header:
  "lines_of (ply_header n @ rest) =
     ''ply'' # ''format ascii 1.0'' # (''element vertex '' @ dec n) # ''property float x''
     # ''property float y'' # ''property float z'' # ''property float nx'' # ''property float ny''
     # ''property float nz'' # ''end_header'' # lines_of rest"
  apply (subst ply_header_lines)
  apply (subst lines_of_line, simp)
  apply (subst lines_of_line, simp)
  apply (subst lines_of_line, simp add: dec_no_newline)
  apply (subst lines_of_line, simp)
  apply (subst lines_of_line, simp)
  apply (subst lines_of_line, simp)
  apply (subst lines_of_line, simp)
  apply (subst lines_of_line, simp)
  apply (subst lines_of_line, simp)
  apply (subst lines_of_line, simp)
  apply (rule refl)
  done

lemma ply_header_count:
  "ply_vertex_count (ply_header n @ rest) = Some n"
  by (simp add: ply_vertex_count_def lines_of_ply_header parse_dec_dec)

lemma write_rows_prefix:
  "\<exists>rest. fst (write_rows shw vertices normals numVertices i buf) = buf @ rest"
proof (induction shw vertices normals numVertices i buf rule: write_rows.induct)
  case (1 shw vertices normals numVertices i buf)
  show ?case
  proof (cases "i < numVertices \<and> \<not> length vertices \<le> i * 3 + 2 \<and> \<not> length normals \<le> i * 3 + 2")
    case True
    with "1.IH" [OF _ _ refl] show ?thesis
      apply (subst write_rows.simps)
      apply (simp add: Let_def)
      apply (erule exE)
      apply (erule ssubst)
      apply (simp)
      done
  next
    case False
    then show ?thesis
      by (subst write_rows.simps) (auto simp: Let_def)
  qed
qed

lemma write_rows_fault:
  "3 * numVertices \<le> length vertices \<Longrightarrow>
   snd (write_rows shw vertices normals numVertices i buf) = None
     \<longleftrightarrow> numVertices \<le> i \<or> 3 * numVertices \<le> length normals"
proof (induction shw vertices normals numVertices i buf rule: write_rows.induct)
  case (1 shw vertices normals numVertices i buf)
  show ?case
  proof (cases "i < numVertices")
    case False
    then show ?thesis
      by (subst write_rows.simps) simp
  next
    case True
    with "1.prems" have v: "\<not> length vertices \<le> i * 3 + 2" by simp
    show ?thesis
    proof (cases "length normals \<le> i * 3 + 2")
      case True
      with \<open>i < numVertices\<close> v show ?thesis
        by (subst write_rows.simps) (simp add: Let_def)
    next
      case False
      with "1.IH" [OF _ _ refl] \<open>i < numVertices\<close> v "1.prems" show ?thesis
        by (subst write_rows.simps) (auto simp: Let_def)
    qed
  qed
qed

lemma write_ply_ub:
  "can_open filename \<Longrightarrow>
   ub (write_ply can_open shw vertices normals filename) = None
     \<longleftrightarrow> 3 * (length vertices div 3) \<le> length normals"
  using write_rows_fault [of "length vertices div 3" vertices shw normals 0
      "ply_header (length vertices div 3)"]
  by (auto simp: write_ply_def Let_def split: option.splits)

text \<open>
  Claim C6, as amended.  For every vertex sequence and every normal sequence with at
  least \<open>3 * (vertices.size() / 3)\<close> elements, when the file can be opened, \<open>write_ply\<close>
  reads no element out of bounds, and the text that it sends to the file starts with a
  header from which the vertex count reads back as \<open>vertices.size() / 3\<close>.
\<close>

theorem ply_header_vertex_count:
  assumes "can_open filename" and "3 * (length vertices div 3) \<le> length normals"
  shows "ub (write_ply can_open shw vertices normals filename) = None
    \<and> (\<exists>header. file_text (write_ply can_open shw vertices normals filename) = Some header
        \<and> ply_vertex_count header = Some (length vertices div 3))"
proof
  show "ub (write_ply can_open shw vertices normals filename) = None"
    using assms by (simp add: write_ply_ub)
next
  obtain rest where
    "fst (write_rows shw vertices normals (length vertices div 3) 0
            (ply_header (length vertices div 3))) = ply_header (length vertices div 3) @ rest"
    using write_rows_prefix by blast
  with assms(1) show "\<exists>header. file_text (write_ply can_open shw vertices normals filename) = Some header
      \<and> ply_vertex_count header = Some (length vertices div 3)"
    by (simp add: write_ply_def Let_def ply_header_count split: option.splits)
qed

text \<open>Nine floats are three vertices, with their nine normal coordinates.\<close>

theorem ply_header_vertex_count_witness:
  "(\<lambda>name. True) ''output.ply''
   \<and> 3 * (length [0, 0, 0, 1, 0, 0, 0, 1, 0 :: float32] div 3)
       \<le> length [0, 0, 1, 0, 0, 1, 0, 0, 1 :: float32]
   \<and> ub (write_ply (\<lambda>name. True) (\<lambda>v. ''0'') [0, 0, 0, 1, 0, 0, 0, 1, 0]
         [0, 0, 1, 0, 0, 1, 0, 0, 1] ''output.ply'') = None
   \<and> (\<exists>header.
        file_text (write_ply (\<lambda>name. True) (\<lambda>v. ''0'') [0, 0, 0, 1, 0, 0, 0, 1, 0]
          [0, 0, 1, 0, 0, 1, 0, 0, 1] ''output.ply'') = Some header
        \<and> ply_vertex_count header = Some 3)"
proof -
  have len: "length [0, 0, 0, 1, 0, 0, 0, 1, 0 :: float32] = 9"
    "length [0, 0, 1, 0, 0, 1, 0, 0, 1 :: float32] = 9"
    by simp_all
  have h1: "(\<lambda>name :: string. True) ''output.ply''"
    by simp
  have h2: "3 * (length [0, 0, 0, 1, 0, 0, 0, 1, 0 :: float32] div 3)
      \<le> length [0, 0, 1, 0, 0, 1, 0, 0, 1 :: float32]"
    unfolding len by simp
  have d: "length [0, 0, 0, 1, 0, 0, 0, 1, 0 :: float32] div 3 = 3"
    unfolding len by simp
  from ply_header_vertex_count [of "\<lambda>name. True" "''output.ply''"
      "[0, 0, 0, 1, 0, 0, 0, 1, 0]" "[0, 0, 1, 0, 0, 1, 0, 0, 1]" "\<lambda>v. ''0''", OF h1 h2] h2
  show ?thesis
    unfolding d by simp
qed

text \<open>
  The claim as it was stated fails when \<open>normals\<close> is too short: with one vertex and no
  normals, \<open>write_ply\<close> reads \<open>normals[0]\<close> outside the vector, which is undefined
  behaviour, and nothing can be said of the file that is left.
\<close>

theorem ply_header_out_of_bounds:
  "(\<lambda>name. True) ''output.ply''
   \<and> ub (write_ply (\<lambda>name. True) (\<lambda>v. ''0'') [0, 0, 0] [] ''output.ply'') = Some OutOfBounds"
proof -
  have "ub (write_ply (\<lambda>name. True) (\<lambda>v. ''0'') [0, 0, 0] [] ''output.ply'') \<noteq> None"
    using write_ply_ub [of "\<lambda>name. True" "''output.ply''" "\<lambda>v. ''0''" "[0, 0, 0]" "[]"] by simp
  then have "ub (write_ply (\<lambda>name. True) (\<lambda>v. ''0'') [0, 0, 0] [] ''output.ply'') = Some OutOfBounds"
    by (cases "ub (write_ply (\<lambda>name. True) (\<lambda>v. ''0'') [0, 0, 0] [] ''output.ply'')")
      (auto intro: fault.exhaust)
  then show ?thesis by simp
qed

subsection \<open>A file that cannot be opened\<close>

text \<open>
  Claim C7.  When the path cannot be opened for writing, \<open>write_ply\<close> sends
  "Failed to open file: " and the file name to \<open>std::cerr\<close> and returns: nothing is
  written to a file or to \<open>std::cout\<close>, and no vector is read.
\<close>

theorem write_ply_unopenable:
  "\<not> can_open filename \<Longrightarrow>
   write_ply can_open shw vertices normals filename =
     \<lparr>file_text = None, cerr_text = ''Failed to open file: '' @ filename @ newline,
      cout_text = [], ub = None\<rparr>"
  by (simp add: write_ply_def)

text \<open>No path can be opened.\<close>

theorem write_ply_unopenable_witness:
  "\<not> (\<lambda>name. False) ''output.ply''
   \<and> write_ply (\<lambda>name. False) (\<lambda>v. ''0'') [0, 0, 0] [0, 0, 1] ''output.ply'' =
       \<lparr>file_text = None, cerr_text = ''Failed to open file: output.ply'' @ newline,
        cout_text = [], ub = None\<rparr>"
  using write_ply_unopenable [of "\<lambda>name. False" "''output.ply''" "\<lambda>v. ''0''" "[0, 0, 0]" "[0, 0, 1]"]
  by simp

subsection \<open>The traversal loops\<close>

lemma for_loop_skip:
  assumes "\<And>w t. body w t = None \<or> body w t = Some (Inr t)"
  shows "for_loop n maxb stepsize body v s = None \<or> for_loop n maxb stepsize body v s = Some (Inr s)"
proof (induction n arbitrary: v)
  case 0
  then show ?case by simp
next
  case (Suc n)
  from assms [of v s] Suc.IH [of "v + stepsize"] show ?case
    by auto
qed

lemma for_loop_mono:
  assumes "for_loop n maxb stepsize body v s = Some r"
    and "n \<le> m"
    and "\<And>w t q. body w t = Some q \<Longrightarrow> body' w t = Some q"
  shows "for_loop m maxb stepsize body' v s = Some r"
  using assms(1,2)
proof (induction n arbitrary: m v s)
  case 0
  then show ?case by simp
next
  case (Suc n)
  from Suc.prems(2) obtain m' where m: "m = Suc m'" and le: "n \<le> m'"
    by (cases m) auto
  show ?case
  proof (cases "v < maxb")
    case False
    with Suc.prems(1) show ?thesis by (simp add: m)
  next
    case True
    with Suc.prems(1) obtain q where q: "body v s = Some q"
      by (auto split: option.splits)
    then have q': "body' v s = Some q" by (rule assms(3))
    show ?thesis
    proof (cases q)
      case (Inl e)
      with Suc.prems(1) True q q' show ?thesis by (auto simp: m)
    next
      case (Inr t)
      with Suc.prems(1) True q have "for_loop n maxb stepsize body (v + stepsize) t = Some r"
        by simp
      from Suc.IH [OF this le] True q' Inr show ?thesis by (simp add: m)
    qed
  qed
qed

text \<open>The number of floats between \<open>v\<close> and \<open>maxb\<close> bounds the iterations that remain.\<close>

lemma for_loop_returns:
  assumes noabs: "\<And>w. minb \<le> w \<Longrightarrow> w < maxb \<Longrightarrow> w < w + stepsize"
    and total: "\<And>w t. body w t \<noteq> None"
    and start: "v < maxb \<longrightarrow> minb \<le> v"
    and fuel: "nat (units maxb - units v) < n"
  shows "for_loop n maxb stepsize body v s \<noteq> None"
  using start fuel
proof (induction n arbitrary: v s)
  case 0
  then show ?case by simp
next
  case (Suc n)
  show ?case
  proof (cases "v < maxb")
    case False
    then show ?thesis by simp
  next
    case True
    with Suc.prems(1) have lo: "minb \<le> v" by simp
    from noabs [OF lo True] have up: "v < v + stepsize" .
    from up True have u1: "units v < units (v + stepsize)" and u2: "units v < units maxb"
      and nn: "\<not> is_nan (v + stepsize)"
      by (simp_all add: less_float32_def f32_less_def)
    from lo up have lo': "minb \<le> v + stepsize"
      by (simp add: less_float32_def less_eq_float32_def f32_less_def f32_le_def)
    from u1 u2 Suc.prems(2) have "nat (units maxb - units (v + stepsize)) < n"
      by simp
    with Suc.IH [of "v + stepsize"] lo' have rec: "for_loop n maxb stepsize body (v + stepsize) t \<noteq> None" for t
      by simp
    obtain q where q: "body v s = Some q"
      using total [of v s] by auto
    show ?thesis
      using True q rec by (cases q) simp_all
  qed
qed

lemma for_loop_stuck:
  assumes "v + stepsize = v" and "v < maxb"
  shows "for_loop n maxb stepsize body v s \<noteq> Some (Inr s')"
proof (induction n arbitrary: s)
  case 0
  then show ?case by simp
next
  case (Suc n)
  show ?case
  proof (cases "body v s")
    case None
    with assms show ?thesis by simp
  next
    case (Some q)
    with assms Suc.IH show ?thesis by (cases q) simp_all
  qed
qed

lemma marching_cubes_returns:
  assumes noabs: "\<And>w. minb \<le> w \<Longrightarrow> w < maxb \<Longrightarrow> w < w + stepsize"
  shows "\<exists>k r. \<forall>m\<ge>k. marching_cubes m lut f isovalue minb maxb stepsize = Some r"
proof -
  define k where "k = Suc (nat (units maxb - units minb))"
  have start: "minb < maxb \<longrightarrow> minb \<le> minb"
    by (simp add: less_float32_def less_eq_float32_def f32_less_def f32_le_def)
  have fuel: "nat (units maxb - units minb) < m" if "k \<le> m" for m
    using that by (simp add: k_def)
  have zl: "for_loop m maxb stepsize
      (\<lambda>z vertices. Some (process_cube lut f isovalue stepsize x y z vertices)) minb t \<noteq> None"
    if "k \<le> m" for m x y t
    by (rule for_loop_returns [OF noabs _ start fuel [OF that]]) simp_all
  have yl: "for_loop m maxb stepsize
      (\<lambda>y. for_loop m maxb stepsize
         (\<lambda>z vertices. Some (process_cube lut f isovalue stepsize x y z vertices)) minb) minb t \<noteq> None"
    if "k \<le> m" for m x t
    by (rule for_loop_returns [OF noabs _ start fuel [OF that]]) (simp_all add: zl [OF that])
  have xl: "marching_cubes m lut f isovalue minb maxb stepsize \<noteq> None" if "k \<le> m" for m
    unfolding marching_cubes_def
    by (rule for_loop_returns [OF noabs _ start fuel [OF that]]) (simp_all add: yl [OF that])
  from xl [of k] obtain r where r: "marching_cubes k lut f isovalue minb maxb stepsize = Some r"
    by auto
  have "marching_cubes m lut f isovalue minb maxb stepsize = Some r" if "k \<le> m" for m
    using r unfolding marching_cubes_def
  proof (rule for_loop_mono [OF _ that])
    fix x t q
    assume "for_loop k maxb stepsize
        (\<lambda>y. for_loop k maxb stepsize
           (\<lambda>z vertices. Some (process_cube lut f isovalue stepsize x y z vertices)) minb) minb t = Some q"
    then show "for_loop m maxb stepsize
        (\<lambda>y. for_loop m maxb stepsize
           (\<lambda>z vertices. Some (process_cube lut f isovalue stepsize x y z vertices)) minb) minb t = Some q"
    proof (rule for_loop_mono [OF _ that])
      fix y t' q'
      assume "for_loop k maxb stepsize
          (\<lambda>z vertices. Some (process_cube lut f isovalue stepsize x y z vertices)) minb t' = Some q'"
      then show "for_loop m maxb stepsize
          (\<lambda>z vertices. Some (process_cube lut f isovalue stepsize x y z vertices)) minb t' = Some q'"
        by (rule for_loop_mono [OF _ that])
    qed
  qed
  then show ?thesis by blast
qed

subsection \<open>A constant field below the isovalue\<close>

lemma cube_index_all_below:
  assumes "c < isovalue"
  shows "cube_index (corner_val (\<lambda>x y z. c) pos) isovalue = 255"
  using assms by (simp add: cube_index_def corner_val_def upt_8)

lemma process_cube_constant:
  assumes "c < isovalue" and "255 < length lut" and "lut ! 255 \<noteq> []" and "lut ! 255 ! 0 = - 1"
  shows "process_cube lut (\<lambda>x y z. c) isovalue stepsize x y z vertices = Inr vertices"
  using assms by (simp add: process_cube_def cube_index_all_below Let_def)

lemma marching_cubes_constant_skip:
  assumes "c < isovalue" and "255 < length lut" and "lut ! 255 \<noteq> []" and "lut ! 255 ! 0 = - 1"
  shows "marching_cubes n lut (\<lambda>x y z. c) isovalue minb maxb stepsize = None
    \<or> marching_cubes n lut (\<lambda>x y z. c) isovalue minb maxb stepsize = Some (Inr [])"
  unfolding marching_cubes_def
  by (intro for_loop_skip) (simp add: process_cube_constant [OF assms])

text \<open>
  Claim C8, as amended.  For a constant field strictly below the isovalue, and a table
  whose row 255 is empty, \<open>marching_cubes\<close> pushes no vertex and has no fault; it returns
  the empty vertex sequence whenever adding the step size to a coordinate in
  \<open>[min, max)\<close> gives a larger float, so that the traversal ends.
\<close>

theorem constant_field_below_isovalue:
  assumes "c < isovalue" and "255 < length lut" and "lut ! 255 \<noteq> []" and "lut ! 255 ! 0 = - 1"
  shows "(marching_cubes n lut (\<lambda>x y z. c) isovalue minb maxb stepsize = None
      \<or> marching_cubes n lut (\<lambda>x y z. c) isovalue minb maxb stepsize = Some (Inr []))
    \<and> ((\<forall>w. minb \<le> w \<and> w < maxb \<longrightarrow> w < w + stepsize) \<longrightarrow>
        (\<exists>k. \<forall>m\<ge>k. marching_cubes m lut (\<lambda>x y z. c) isovalue minb maxb stepsize = Some (Inr [])))"
proof (intro conjI impI)
  show "marching_cubes n lut (\<lambda>x y z. c) isovalue minb maxb stepsize = None
      \<or> marching_cubes n lut (\<lambda>x y z. c) isovalue minb maxb stepsize = Some (Inr [])"
    by (rule marching_cubes_constant_skip [OF assms])
next
  assume "\<forall>w. minb \<le> w \<and> w < maxb \<longrightarrow> w < w + stepsize"
  then obtain k r where
    kr: "\<forall>m\<ge>k. marching_cubes m lut (\<lambda>x y z. c) isovalue minb maxb stepsize = Some r"
    using marching_cubes_returns [of minb maxb stepsize lut "\<lambda>x y z. c" isovalue] by blast
  then have "marching_cubes k lut (\<lambda>x y z. c) isovalue minb maxb stepsize = Some r"
    by simp
  with marching_cubes_constant_skip [OF assms, of k minb maxb stepsize] have "r = Inr []"
    by simp
  with kr show "\<exists>k. \<forall>m\<ge>k. marching_cubes m lut (\<lambda>x y z. c) isovalue minb maxb stepsize = Some (Inr [])"
    by blast
qed

text \<open>The field 0 and the isovalue 1 on the grid from 0 to 2 with step 1.\<close>

theorem constant_field_below_isovalue_witness:
  "(0::float32) < 1 \<and> 255 < length lut_example \<and> lut_example ! 255 \<noteq> []
   \<and> lut_example ! 255 ! 0 = - 1
   \<and> \<not> (\<exists>w. 0 \<le> w \<and> w < f32_of_int 2 \<and> \<not> w < w + 1)
   \<and> marching_cubes 3 lut_example (\<lambda>x y z. 0) 1 0 (f32_of_int 2) 1 \<noteq> Some (Inl OutOfBounds)
   \<and> (\<exists>k. \<forall>m\<ge>k. marching_cubes m lut_example (\<lambda>x y z. 0) 1 0 (f32_of_int 2) 1 = Some (Inr []))"
proof -
  have h1: "(0::float32) < 1" by (rule stuck_example)
  have h3: "\<forall>w. 0 \<le> w \<and> w < f32_of_int 2 \<longrightarrow> w < w + 1"
    using add_one_increases by blast
  from constant_field_below_isovalue [OF h1 lut_example_255, of 3 0 "f32_of_int 2" 1] h1 h3
    lut_example_255
  show ?thesis by auto
qed

text \<open>
  The claim as it was stated fails on the grid from \<open>2^25\<close> to \<open>2^26\<close> with step 1:
  the coordinate never moves, and \<open>marching_cubes\<close> returns nothing.
\<close>

theorem constant_field_no_return:
  "(0::float32) < 1
   \<and> (\<forall>n. marching_cubes n lut_example (\<lambda>x y z. 0) 1
          (f32_of_int 33554432) (f32_of_int 67108864) 1 = None)"
proof -
  have lt: "(0::float32) < 1" by (rule stuck_example)
  have "marching_cubes n lut_example (\<lambda>x y z. 0) 1
      (f32_of_int 33554432) (f32_of_int 67108864) 1 = None" for n
  proof -
    have "marching_cubes n lut_example (\<lambda>x y z. 0) 1
        (f32_of_int 33554432) (f32_of_int 67108864) 1 \<noteq> Some (Inr [])"
      unfolding marching_cubes_def by (rule for_loop_stuck [OF stuck_example_2])
    with marching_cubes_constant_skip [OF lt lut_example_255, of n] show ?thesis
      by blast
  qed
  with lt show ?thesis by blast
qed

subsection \<open>Termination of the traversal\<close>

text \<open>
  Claim C9, as amended.  For \<open>stepsize > 0\<close> and \<open>max > min\<close>, the traversal ends
  whenever adding the step size to a coordinate in \<open>[min, max)\<close> gives a larger float:
  from some amount of fuel on, \<open>marching_cubes\<close> returns, and always the same result.
\<close>

theorem traversal_terminates:
  assumes "0 < stepsize" and "minb < maxb"
    and "\<forall>w. minb \<le> w \<and> w < maxb \<longrightarrow> w < w + stepsize"
  shows "\<exists>k r. \<forall>m\<ge>k. marching_cubes m lut f isovalue minb maxb stepsize = Some r"
  using assms(3) by (intro marching_cubes_returns) blast

text \<open>The grid from 0 to 2 with step 1.\<close>

theorem traversal_terminates_witness:
  "(0::float32) < 1 \<and> (0::float32) < f32_of_int 2
   \<and> \<not> (\<exists>w. 0 \<le> w \<and> w < f32_of_int 2 \<and> \<not> w < w + 1)
   \<and> (\<exists>k r. \<forall>m\<ge>k. marching_cubes m lut_example (\<lambda>x y z. x) half 0 (f32_of_int 2) 1 = Some r)"
proof -
  have h1: "(0::float32) < 1" by (rule stuck_example)
  have h2: "(0::float32) < f32_of_int 2" by (rule two_example)
  have h3: "\<forall>w. 0 \<le> w \<and> w < f32_of_int 2 \<longrightarrow> w < w + 1"
    using add_one_increases by blast
  from traversal_terminates [OF h1 h2 h3, of lut_example "\<lambda>x y z. x" half] h1 h2 h3
  show ?thesis by blast
qed

text \<open>
  The claim as it was stated fails for \<open>min = 2^24\<close>, \<open>max = 2^25\<close> and
  \<open>stepsize = 1\<close>: \<open>x += stepsize\<close> leaves \<open>x\<close> at \<open>2^24\<close>, and the loop never ends.
\<close>

theorem traversal_stuck:
  "(0::float32) < 1 \<and> f32_of_int 16777216 < f32_of_int 33554432
   \<and> (\<forall>n. marching_cubes n lut_example (\<lambda>x y z. 0) 1
          (f32_of_int 16777216) (f32_of_int 33554432) 1 = None)"
proof -
  have lt: "(0::float32) < 1" by (rule stuck_example)
  have "marching_cubes n lut_example (\<lambda>x y z. 0) 1
      (f32_of_int 16777216) (f32_of_int 33554432) 1 = None" for n
  proof -
    have "marching_cubes n lut_example (\<lambda>x y z. 0) 1
        (f32_of_int 16777216) (f32_of_int 33554432) 1 \<noteq> Some (Inr [])"
      unfolding marching_cubes_def by (rule for_loop_stuck [OF stuck_example(1,2)])
    with marching_cubes_constant_skip [OF lt lut_example_255, of n] show ?thesis
      by blast
  qed
  with lt stuck_example(2) show ?thesis by blast
qed

subsection \<open>The reads of write_ply\<close>



end
